theory Spec2Isabelle
  imports Complex_Main "HOL-Library.AList"
begin

section \<open>Python containers\<close>

text \<open>
  A Python \<open>dict\<close> keeps its keys in insertion order and holds each key once. It is
  modelled as an association list: \<open>d.get(k)\<close> is \<open>map_of d k\<close>, \<open>d[k] = v\<close> is
  \<open>AList.update k v d\<close> (in place for a key that is present, at the end for a new
  one), \<open>len(d)\<close> is the length of the list and \<open>k in d\<close> is \<open>map_of d k \<noteq> None\<close>.
\<close>

type_synonym ('k, 'v) dict = "('k \<times> 'v) list"

text \<open>\<open>d.get(k, default)\<close>: a read that never changes the dictionary.\<close>

definition dict_get :: "('k, 'v) dict \<Rightarrow> 'k \<Rightarrow> 'v \<Rightarrow> 'v" where
  "dict_get d k dflt = (case map_of d k of None \<Rightarrow> dflt | Some v \<Rightarrow> v)"

text \<open>
  \<open>d[k]\<close> on a \<open>defaultdict\<close>: a missing key is inserted with the default value
  before it is read. \<open>dd_touch\<close> is the dictionary after such a read; the value read is
  \<open>dict_get\<close> of it.
\<close>

definition dd_touch :: "('k, 'v) dict \<Rightarrow> 'k \<Rightarrow> 'v \<Rightarrow> ('k, 'v) dict" where
  "dd_touch d k dflt = (case map_of d k of None \<Rightarrow> d @ [(k, dflt)] | Some v \<Rightarrow> d)"

text \<open>
  A Python \<open>set\<close> of strings is modelled as a list of its members. The order in which
  Python iterates over a set is not specified; the list fixes one order, and every
  statement below about a set speaks of membership only.
\<close>

definition pyset_add :: "'a \<Rightarrow> 'a list \<Rightarrow> 'a list" where
  "pyset_add x xs = (if x \<in> set xs then xs else xs @ [x])"

definition pyset_discard :: "'a \<Rightarrow> 'a list \<Rightarrow> 'a list" where
  "pyset_discard x xs = removeAll x xs"

text \<open>Values of type \<open>Any\<close> held in metadata dictionaries (JSON-like data).\<close>

datatype json =
  JNull | JBool bool | JInt int | JStr string | JArr "json list" | JObj "(string \<times> json) list"

section \<open>Domain model\<close>

datatype Platform = WEB | WINDOWS | LINUX | ANDROID | MACOS | OTHER

datatype ActionType =
  CLICK | DOUBLE_CLICK | RIGHT_CLICK | KEY_PRESS | TEXT_INPUT | FOCUS | HOVER | SCROLL
  | TOUCH_TAP | TOUCH_LONG_PRESS | GESTURE | OTHER_ACTION

record Context =
  context_id :: string
  app_id :: string
  version :: "string option"
  platform :: Platform
  locale_tag :: "string option"
  schema_version :: string
  created_at :: string
  environment :: "(string, json) dict"
  metadata :: "(string, json) dict"

text \<open>\<open>common/models/ui_state.py\<close>: the fields of \<open>UIState\<close> carry the prefix \<open>s_\<close>.\<close>

record UIState =
  s_id :: string
  s_app_id :: string
  s_version :: "string option"
  s_platform :: Platform
  s_locale :: "string option"
  fingerprints :: "(string, string) dict"
  screenshot_ref :: "string option"
  s_metadata :: "(string, json) dict"

text \<open>\<open>atlas/schema/state_schema.py\<close>: the fields of \<open>StateRecord\<close> carry the prefix \<open>sr_\<close>.\<close>

record StateRecord =
  sr_context_id :: string
  sr_state :: UIState
  sr_discovered_at :: string
  is_entry :: bool
  is_terminal :: bool
  tags :: "string list"
  sr_metadata :: "(string, json) dict"

definition sr_id :: "StateRecord \<Rightarrow> string" where
  "sr_id r = s_id (sr_state r)"

record Action =
  action_type :: ActionType
  element_id :: "string option"
  raw_input :: "string option"
  a_metadata :: "(string, json) dict"

text \<open>\<open>common/models/transition.py\<close>: the fields of \<open>Transition\<close> carry the prefix \<open>t_\<close>.
  The confidence is a Python float; the store never computes with it.\<close>

record Transition =
  t_id :: string
  t_source_state_id :: string
  t_target_state_id :: string
  t_action :: Action
  t_intent_id :: "string option"
  t_confidence :: real
  t_metadata :: "(string, json) dict"

text \<open>\<open>atlas/schema/transition_schema.py\<close>: \<open>times_observed\<close> is a Python \<open>int\<close>
  that nothing in the class constrains.\<close>

record TransitionRecord =
  tr_context_id :: string
  transition :: Transition
  tr_discovered_at :: string
  times_observed :: int
  tr_metadata :: "(string, json) dict"

text \<open>The convenience properties of \<open>TransitionRecord\<close>.\<close>

definition tr_id :: "TransitionRecord \<Rightarrow> string" where
  "tr_id r = t_id (transition r)"

definition source_state_id :: "TransitionRecord \<Rightarrow> string" where
  "source_state_id r = t_source_state_id (transition r)"

definition target_state_id :: "TransitionRecord \<Rightarrow> string" where
  "target_state_id r = t_target_state_id (transition r)"

section \<open>The graph store (\<open>atlas/storage/graph_store.py\<close>)\<close>

record GraphStoreConfig =
  max_contexts :: "int option"
  max_states_per_context :: "int option"
  max_transitions_per_context :: "int option"

type_synonym incidence = "(string, (string, string list) dict) dict"

record GraphStore =
  config :: GraphStoreConfig
  contexts :: "(string, Context) dict"
  states :: "(string, (string, StateRecord) dict) dict"
  transitions :: "(string, (string, TransitionRecord) dict) dict"
  outgoing :: incidence
  incoming :: incidence

datatype error =
  RuntimeError string | ValueError string | KeyError string | TypeError string
  | IngestError string

text \<open>\<open>GraphStore.__init__\<close>.\<close>

definition new_store :: "GraphStoreConfig \<Rightarrow> GraphStore" where
  "new_store cfg =
     \<lparr>config = cfg, contexts = [], states = [], transitions = [], outgoing = [], incoming = []\<rparr>"

text \<open>A store operation returns the store it leaves behind and the exception it raised,
  if any.\<close>

definition upsert_context :: "GraphStore \<Rightarrow> Context \<Rightarrow> GraphStore \<times> error option" where
  "upsert_context st context =
     (case max_contexts (config st) of
        None \<Rightarrow> (st\<lparr>contexts := AList.update (context_id context) context (contexts st)\<rparr>, None)
      | Some m \<Rightarrow>
          if map_of (contexts st) (context_id context) = None \<and> m \<le> int (length (contexts st))
          then (st, Some (RuntimeError ''GraphStore exceeded max_contexts''))
          else (st\<lparr>contexts := AList.update (context_id context) context (contexts st)\<rparr>, None))"

definition get_context :: "GraphStore \<Rightarrow> string \<Rightarrow> Context option" where
  "get_context st c = map_of (contexts st) c"

text \<open>
  \<open>upsert_state\<close>: the capacity test reads \<open>self._states[ctx_id]\<close>, which on a
  \<open>defaultdict\<close> creates the context's entry, also when the call then raises.
\<close>

definition upsert_state :: "GraphStore \<Rightarrow> StateRecord \<Rightarrow> GraphStore \<times> error option" where
  "upsert_state st record =
     (let ctx_id = sr_context_id record; state_id = sr_id record in
      case max_states_per_context (config st) of
        None \<Rightarrow>
          (st\<lparr>states := AList.update ctx_id
                  (AList.update state_id record (dict_get (states st) ctx_id [])) (states st)\<rparr>,
           None)
      | Some m \<Rightarrow>
          let touched = dd_touch (states st) ctx_id []; ctx_states = dict_get touched ctx_id [] in
          if map_of ctx_states state_id = None \<and> m \<le> int (length ctx_states)
          then (st\<lparr>states := touched\<rparr>,
                Some (RuntimeError ''Context exceeded max_states_per_context''))
          else (st\<lparr>states := AList.update ctx_id (AList.update state_id record ctx_states) touched\<rparr>,
                None))"

definition get_state :: "GraphStore \<Rightarrow> string \<Rightarrow> string \<Rightarrow> StateRecord option" where
  "get_state st c s = map_of (dict_get (states st) c []) s"

text \<open>
  \<open>self._outgoing[c][s].add(t)\<close> and \<open>self._outgoing[c][s].discard(t)\<close> on the nested
  \<open>defaultdict\<close>: both levels are created when missing.
\<close>

definition index_add :: "incidence \<Rightarrow> string \<Rightarrow> string \<Rightarrow> string \<Rightarrow> incidence" where
  "index_add idx c s t =
     (let inner = dict_get idx c [] in
      AList.update c (AList.update s (pyset_add t (dict_get inner s [])) inner) idx)"

definition index_discard :: "incidence \<Rightarrow> string \<Rightarrow> string \<Rightarrow> string \<Rightarrow> incidence" where
  "index_discard idx c s t =
     (let inner = dict_get idx c [] in
      AList.update c (AList.update s (pyset_discard t (dict_get inner s [])) inner) idx)"

definition upsert_transition ::
  "GraphStore \<Rightarrow> TransitionRecord \<Rightarrow> bool \<Rightarrow> GraphStore \<times> error option" where
  "upsert_transition st record increment_observed =
     (let ctx_id = tr_context_id record; tid = tr_id record;
          src = source_state_id record; tgt = target_state_id record;
          touched = dd_touch (transitions st) ctx_id [];
          ctx_transitions = dict_get touched ctx_id []
      in case map_of ctx_transitions tid of
           Some existing \<Rightarrow>
             let old_src = source_state_id existing; old_tgt = target_state_id existing;
                 out1 = (if old_src \<noteq> src then index_discard (outgoing st) ctx_id old_src tid
                         else outgoing st);
                 in1 = (if old_tgt \<noteq> tgt then index_discard (incoming st) ctx_id old_tgt tid
                        else incoming st);
                 record1 = (if increment_observed
                            then record\<lparr>times_observed := times_observed existing + 1\<rparr>
                            else record)
             in (st\<lparr>transitions := AList.update ctx_id (AList.update tid record1 ctx_transitions) touched,
                    outgoing := index_add out1 ctx_id src tid,
                    incoming := index_add in1 ctx_id tgt tid\<rparr>, None)
         | None \<Rightarrow>
             (case max_transitions_per_context (config st) of
                Some m \<Rightarrow>
                  if m \<le> int (length ctx_transitions)
                  then (st\<lparr>transitions := touched\<rparr>,
                        Some (RuntimeError ''Context exceeded max_transitions_per_context''))
                  else (st\<lparr>transitions := AList.update ctx_id (AList.update tid record ctx_transitions) touched,
                           outgoing := index_add (outgoing st) ctx_id src tid,
                           incoming := index_add (incoming st) ctx_id tgt tid\<rparr>, None)
              | None \<Rightarrow>
                  (st\<lparr>transitions := AList.update ctx_id (AList.update tid record ctx_transitions) touched,
                      outgoing := index_add (outgoing st) ctx_id src tid,
                      incoming := index_add (incoming st) ctx_id tgt tid\<rparr>, None)))"

definition get_transition :: "GraphStore \<Rightarrow> string \<Rightarrow> string \<Rightarrow> TransitionRecord option" where
  "get_transition st c t = map_of (dict_get (transitions st) c []) t"

text \<open>The members of \<open>self._outgoing[c][s]\<close> and \<open>self._incoming[c][s]\<close>, read without
  creating anything (\<open>.get(c, {}).get(s, set())\<close>).\<close>

definition outgoing_ids :: "GraphStore \<Rightarrow> string \<Rightarrow> string \<Rightarrow> string list" where
  "outgoing_ids st c s = dict_get (dict_get (outgoing st) c []) s []"

definition incoming_ids :: "GraphStore \<Rightarrow> string \<Rightarrow> string \<Rightarrow> string list" where
  "incoming_ids st c s = dict_get (dict_get (incoming st) c []) s []"

section \<open>Lemmas on the containers\<close>

lemma map_of_update: "map_of (AList.update k v d) k' = (if k' = k then Some v else map_of d k')"
  by (simp add: update_conv')

lemma dict_get_update:
  "dict_get (AList.update k v d) k' dflt = (if k' = k then v else dict_get d k' dflt)"
  by (simp add: dict_get_def map_of_update)

lemma dict_get_touch: "dict_get (dd_touch d k dflt) k' dflt = dict_get d k' dflt"
  by (auto simp: dict_get_def dd_touch_def map_add_def split: option.splits)

lemma set_pyset_add: "set (pyset_add x xs) = insert x (set xs)"
  by (auto simp: pyset_add_def)

lemma set_pyset_discard: "set (pyset_discard x xs) = set xs - {x}"
  by (auto simp: pyset_discard_def)

lemma index_add_ids:
  "dict_get (dict_get (index_add idx c s t) c' []) s' [] =
     (if c' = c \<and> s' = s then pyset_add t (dict_get (dict_get idx c []) s [])
      else dict_get (dict_get idx c' []) s' [])"
  by (simp add: index_add_def Let_def dict_get_update)

lemma index_discard_ids:
  "dict_get (dict_get (index_discard idx c s t) c' []) s' [] =
     (if c' = c \<and> s' = s then pyset_discard t (dict_get (dict_get idx c []) s [])
      else dict_get (dict_get idx c' []) s' [])"
  by (simp add: index_discard_def Let_def dict_get_update)


section \<open>Sequences of store operations\<close>

text \<open>
  A caller that catches the exception of a failed operation goes on with the store as
  that operation left it.
\<close>

datatype store_op =
  UpsertContext Context | UpsertState StateRecord | UpsertTransition TransitionRecord bool

fun apply_op :: "GraphStore \<Rightarrow> store_op \<Rightarrow> GraphStore" where
  "apply_op st (UpsertContext c) = fst (upsert_context st c)"
| "apply_op st (UpsertState r) = fst (upsert_state st r)"
| "apply_op st (UpsertTransition r inc) = fst (upsert_transition st r inc)"

fun run_ops :: "GraphStore \<Rightarrow> store_op list \<Rightarrow> GraphStore" where
  "run_ops st [] = st"
| "run_ops st (x # xs) = run_ops (apply_op st x) xs"

text \<open>Invariant I3 of the specification.\<close>

definition incidence_consistent :: "GraphStore \<Rightarrow> bool" where
  "incidence_consistent st \<longleftrightarrow>
     (\<forall>c s t.
        (t \<in> set (outgoing_ids st c s) \<longleftrightarrow>
           (\<exists>r. get_transition st c t = Some r \<and> source_state_id r = s)) \<and>
        (t \<in> set (incoming_ids st c s) \<longleftrightarrow>
           (\<exists>r. get_transition st c t = Some r \<and> target_state_id r = s)))"

lemma upsert_context_frame:
  "states (fst (upsert_context st c)) = states st \<and>
   transitions (fst (upsert_context st c)) = transitions st \<and>
   outgoing (fst (upsert_context st c)) = outgoing st \<and>
   incoming (fst (upsert_context st c)) = incoming st \<and>
   config (fst (upsert_context st c)) = config st"
  by (simp add: upsert_context_def split: option.splits)

lemma upsert_state_frame:
  "contexts (fst (upsert_state st r)) = contexts st \<and>
   transitions (fst (upsert_state st r)) = transitions st \<and>
   outgoing (fst (upsert_state st r)) = outgoing st \<and>
   incoming (fst (upsert_state st r)) = incoming st \<and>
   config (fst (upsert_state st r)) = config st"
  by (simp add: upsert_state_def Let_def split: option.splits)

lemma map_of_touch:
  "map_of (dd_touch d k dflt) k' = (if k' = k \<and> map_of d k = None then Some dflt else map_of d k')"
  by (auto simp: dd_touch_def map_add_def split: option.splits)

lemma upsert_state_other_context:
  "c \<noteq> sr_context_id r \<Longrightarrow> map_of (states (fst (upsert_state st r))) c = map_of (states st) c"
  by (auto simp add: upsert_state_def Let_def map_of_update map_of_touch split: option.splits)

text \<open>The record that \<open>upsert_transition\<close> stores.\<close>

definition stored_record :: "GraphStore \<Rightarrow> TransitionRecord \<Rightarrow> bool \<Rightarrow> TransitionRecord" where
  "stored_record st r inc =
     (case get_transition st (tr_context_id r) (tr_id r) of
        Some existing \<Rightarrow> if inc then r\<lparr>times_observed := times_observed existing + 1\<rparr> else r
      | None \<Rightarrow> r)"

lemma stored_record_ends [simp]:
  "source_state_id (stored_record st r inc) = source_state_id r"
  "target_state_id (stored_record st r inc) = target_state_id r"
  "tr_id (stored_record st r inc) = tr_id r"
  "tr_context_id (stored_record st r inc) = tr_context_id r"
  by (auto simp: stored_record_def source_state_id_def target_state_id_def tr_id_def split: option.splits)

lemma upsert_transition_ok_get:
  assumes "upsert_transition st r inc = (st', None)"
  shows "get_transition st' c t =
     (if c = tr_context_id r \<and> t = tr_id r then Some (stored_record st r inc)
      else get_transition st c t)"
  using assms
  by (auto simp: upsert_transition_def Let_def get_transition_def stored_record_def
      dict_get_update dict_get_touch map_of_update split: option.splits if_splits)

lemma upsert_transition_ok_out:
  assumes "upsert_transition st r inc = (st', None)"
  shows "set (outgoing_ids st' c s) =
     (if c = tr_context_id r
      then (case get_transition st c (tr_id r) of
              Some old \<Rightarrow> if source_state_id old \<noteq> source_state_id r \<and> s = source_state_id old
                          then set (outgoing_ids st c s) - {tr_id r} else set (outgoing_ids st c s)
            | None \<Rightarrow> set (outgoing_ids st c s))
           \<union> (if s = source_state_id r then {tr_id r} else {})
      else set (outgoing_ids st c s))"
  using assms
  by (auto simp: upsert_transition_def Let_def get_transition_def outgoing_ids_def
      dict_get_touch index_add_ids index_discard_ids set_pyset_add set_pyset_discard
      split: option.splits if_splits)

lemma upsert_transition_ok_in:
  assumes "upsert_transition st r inc = (st', None)"
  shows "set (incoming_ids st' c s) =
     (if c = tr_context_id r
      then (case get_transition st c (tr_id r) of
              Some old \<Rightarrow> if target_state_id old \<noteq> target_state_id r \<and> s = target_state_id old
                          then set (incoming_ids st c s) - {tr_id r} else set (incoming_ids st c s)
            | None \<Rightarrow> set (incoming_ids st c s))
           \<union> (if s = target_state_id r then {tr_id r} else {})
      else set (incoming_ids st c s))"
  using assms
  by (auto simp: upsert_transition_def Let_def get_transition_def incoming_ids_def
      dict_get_touch index_add_ids index_discard_ids set_pyset_add set_pyset_discard
      split: option.splits if_splits)

lemma upsert_transition_fail:
  assumes "upsert_transition st r inc = (st', Some e)"
  shows "get_transition st' = get_transition st \<and> outgoing st' = outgoing st \<and>
         incoming st' = incoming st \<and> contexts st' = contexts st \<and> states st' = states st
         \<and> config st' = config st"
  using assms
  by (auto simp: upsert_transition_def Let_def get_transition_def fun_eq_iff
      dict_get_touch split: option.splits if_splits)


lemma incidence_upsert_transition:
  assumes "incidence_consistent st"
  shows "incidence_consistent (fst (upsert_transition st r inc))"
proof -
  obtain st' e where res: "upsert_transition st r inc = (st', e)"
    by (cases "upsert_transition st r inc")
  show ?thesis
  proof (cases e)
    case None
    note ok = res [unfolded None]
    show ?thesis
      unfolding res fst_conv incidence_consistent_def
      using assms
      unfolding incidence_consistent_def upsert_transition_ok_get [OF ok]
        upsert_transition_ok_out [OF ok] upsert_transition_ok_in [OF ok]
      by (auto split: option.splits)
  next
    case (Some err)
    from upsert_transition_fail [OF res [unfolded Some]] assms show ?thesis
      unfolding res fst_conv incidence_consistent_def outgoing_ids_def incoming_ids_def
      by simp
  qed
qed

lemma incidence_apply_op:
  "incidence_consistent st \<Longrightarrow> incidence_consistent (apply_op st x)"
proof (cases x)
  case (UpsertContext c)
  assume "incidence_consistent st"
  then show ?thesis
    unfolding UpsertContext apply_op.simps incidence_consistent_def outgoing_ids_def
      incoming_ids_def get_transition_def
    by (simp add: upsert_context_frame)
next
  case (UpsertState r)
  assume "incidence_consistent st"
  then show ?thesis
    unfolding UpsertState apply_op.simps incidence_consistent_def outgoing_ids_def
      incoming_ids_def get_transition_def
    by (simp add: upsert_state_frame)
next
  case (UpsertTransition r inc)
  assume "incidence_consistent st"
  then show ?thesis
    unfolding UpsertTransition apply_op.simps by (rule incidence_upsert_transition)
qed

lemma incidence_new_store: "incidence_consistent (new_store cfg)"
  by (simp add: incidence_consistent_def new_store_def outgoing_ids_def incoming_ids_def
      get_transition_def dict_get_def)

lemma incidence_run_ops:
  "incidence_consistent st \<Longrightarrow> incidence_consistent (run_ops st ops)"
  by (induction ops arbitrary: st) (simp_all add: incidence_apply_op)

text \<open>
  C1. Starting from an empty store, after any sequence of \<open>upsert_context\<close>,
  \<open>upsert_state\<close> and \<open>upsert_transition\<close> calls (failed calls included), a transition
  id \<open>t\<close> is a member of \<open>outgoing[c][s]\<close> exactly when \<open>transitions[c]\<close> stores a record
  under \<open>t\<close> whose source is \<open>s\<close>, and a member of \<open>incoming[c][s]\<close> exactly when that
  record's target is \<open>s\<close>.
\<close>

theorem incidence_index_consistency:
  "(t \<in> set (outgoing_ids (run_ops (new_store cfg) ops) c s) \<longleftrightarrow>
      (\<exists>r. get_transition (run_ops (new_store cfg) ops) c t = Some r \<and> source_state_id r = s))
   \<and> (t \<in> set (incoming_ids (run_ops (new_store cfg) ops) c s) \<longleftrightarrow>
      (\<exists>r. get_transition (run_ops (new_store cfg) ops) c t = Some r \<and> target_state_id r = s))"
  using incidence_run_ops [OF incidence_new_store, of cfg ops]
  unfolding incidence_consistent_def by blast

text \<open>
  C10. \<open>upsert_state\<close>, whether it inserts, replaces or raises, leaves the transitions
  map, both incidence indices and the contexts as they were; of the states, only the map
  of the record's own context may change.
\<close>

theorem upsert_state_frame_condition:
  "transitions (fst (upsert_state st r)) = transitions st \<and>
   outgoing (fst (upsert_state st r)) = outgoing st \<and>
   incoming (fst (upsert_state st r)) = incoming st \<and>
   contexts (fst (upsert_state st r)) = contexts st \<and>
   (\<forall>c. c \<noteq> sr_context_id r \<longrightarrow> map_of (states (fst (upsert_state st r))) c = map_of (states st) c)"
  using upsert_state_frame [of st r] upsert_state_other_context [of _ r st] by simp


section \<open>Ingest (\<open>atlas/api/endpoints/ingest.py\<close>)\<close>

text \<open>
  A payload is represented by what \<open>isinstance(payload, dict)\<close> and
  \<open>TransitionRecord.from_dict\<close> make of it: not an object, an object whose decoding
  raises, or an object that decodes to a record.
\<close>

datatype 'r payload = NotAnObject | Undecodable error | Decodes 'r

record ingest_response =
  status :: string
  resp_context_id :: string
  resp_transition_id :: string

definition quoted :: "string \<Rightarrow> string" where
  "quoted s = [CHR 0x27] @ s @ [CHR 0x27]"

fun error_text :: "error \<Rightarrow> string" where
  "error_text (RuntimeError m) = m"
| "error_text (ValueError m) = m"
| "error_text (KeyError k) = quoted k"
| "error_text (TypeError m) = m"
| "error_text (IngestError m) = m"

definition ingest_transition_record ::
  "GraphStore \<Rightarrow> TransitionRecord payload \<Rightarrow> GraphStore \<times> (error + ingest_response)" where
  "ingest_transition_record st payload =
     (case payload of
        NotAnObject \<Rightarrow> (st, Inl (IngestError ''TransitionRecord payload must be an object''))
      | Undecodable (KeyError k) \<Rightarrow>
          (st, Inl (IngestError (''Missing transition record field: '' @ quoted k)))
      | Undecodable exc \<Rightarrow>
          (st, Inl (IngestError (''Invalid transition record payload: '' @ error_text exc)))
      | Decodes record \<Rightarrow>
          if get_context st (tr_context_id record) = None
          then (st, Inl (IngestError (''Context '' @ quoted (tr_context_id record)
                                       @ '' does not exist'')))
          else if get_state st (tr_context_id record) (source_state_id record) = None
          then (st, Inl (IngestError (''Source state '' @ quoted (source_state_id record)
                                       @ '' not found in context ''
                                       @ quoted (tr_context_id record))))
          else if get_state st (tr_context_id record) (target_state_id record) = None
          then (st, Inl (IngestError (''Target state '' @ quoted (target_state_id record)
                                       @ '' not found in context ''
                                       @ quoted (tr_context_id record))))
          else (case upsert_transition st record True of
                  (st', Some exc) \<Rightarrow> (st', Inl exc)
                | (st', None) \<Rightarrow>
                    (st', Inr \<lparr>status = ''ok'', resp_context_id = tr_context_id record,
                               resp_transition_id = tr_id record\<rparr>)))"

text \<open>
  C3. Whenever the record's context does not exist, or its source state or its target
  state is not present in that context, \<open>ingest_transition_record\<close> raises \<open>IngestError\<close>
  and the store after the call is the store before it.
\<close>

theorem failed_transition_ingest_unchanged:
  assumes "get_context st (tr_context_id r) = None
           \<or> get_state st (tr_context_id r) (source_state_id r) = None
           \<or> get_state st (tr_context_id r) (target_state_id r) = None"
  shows "\<exists>msg. ingest_transition_record st (Decodes r) = (st, Inl (IngestError msg))"
  using assms by (auto simp: ingest_transition_record_def)

definition times_observed_ok :: "GraphStore \<Rightarrow> bool" where
  "times_observed_ok st \<longleftrightarrow> (\<forall>c t r. get_transition st c t = Some r \<longrightarrow> 1 \<le> times_observed r)"

fun well_formed_op :: "store_op \<Rightarrow> bool" where
  "well_formed_op (UpsertTransition r inc) = (1 \<le> times_observed r)"
| "well_formed_op (UpsertContext c) = True"
| "well_formed_op (UpsertState r) = True"

lemma times_observed_upsert_transition:
  assumes "times_observed_ok st" and "1 \<le> times_observed r"
  shows "times_observed_ok (fst (upsert_transition st r inc))"
proof -
  obtain st' e where res: "upsert_transition st r inc = (st', e)"
    by (cases "upsert_transition st r inc")
  show ?thesis
  proof (cases e)
    case None
    note ok = res [unfolded None]
    show ?thesis
      unfolding res fst_conv times_observed_ok_def upsert_transition_ok_get [OF ok]
      using assms unfolding times_observed_ok_def stored_record_def
      by (fastforce split: option.splits if_splits)
  next
    case (Some err)
    from upsert_transition_fail [OF res [unfolded Some]] assms show ?thesis
      unfolding res fst_conv times_observed_ok_def by simp
  qed
qed

lemma times_observed_apply_op:
  "times_observed_ok st \<Longrightarrow> well_formed_op x \<Longrightarrow> times_observed_ok (apply_op st x)"
proof (cases x)
  case (UpsertContext c)
  assume "times_observed_ok st"
  then show ?thesis
    unfolding UpsertContext apply_op.simps times_observed_ok_def get_transition_def
    by (simp add: upsert_context_frame)
next
  case (UpsertState r)
  assume "times_observed_ok st"
  then show ?thesis
    unfolding UpsertState apply_op.simps times_observed_ok_def get_transition_def
    by (simp add: upsert_state_frame)
next
  case (UpsertTransition r inc)
  assume "times_observed_ok st" "well_formed_op x"
  then show ?thesis
    unfolding UpsertTransition apply_op.simps well_formed_op.simps
    by (rule times_observed_upsert_transition)
qed

lemma times_observed_run_ops:
  "times_observed_ok st \<Longrightarrow> \<forall>x\<in>set ops. well_formed_op x \<Longrightarrow> times_observed_ok (run_ops st ops)"
  by (induction ops arbitrary: st) (simp_all add: times_observed_apply_op)

lemma times_observed_new_store: "times_observed_ok (new_store cfg)"
  by (simp add: times_observed_ok_def new_store_def get_transition_def dict_get_def)

text \<open>
  C5. From an empty store, after any sequence of \<open>upsert_context\<close>, \<open>upsert_state\<close> and
  \<open>upsert_transition\<close> calls (either value of \<open>increment_observed\<close>) on well-formed
  records, that is records whose \<open>times_observed\<close> is at least 1 as the data model
  requires, every transition record held by the store has \<open>times_observed \<ge> 1\<close>.
\<close>

theorem times_observed_lower_bound:
  assumes "\<forall>x\<in>set ops. well_formed_op x"
    and "get_transition (run_ops (new_store cfg) ops) c t = Some r"
  shows "1 \<le> times_observed r"
  using times_observed_run_ops [OF times_observed_new_store assms(1), of cfg] assms(2)
  unfolding times_observed_ok_def by blast


section \<open>Observation counts\<close>

lemma upsert_transition_frame:
  "contexts (fst (upsert_transition st r inc)) = contexts st \<and>
   states (fst (upsert_transition st r inc)) = states st \<and>
   config (fst (upsert_transition st r inc)) = config st"
  by (simp add: upsert_transition_def Let_def split: option.splits)

lemma upsert_transition_existing_ok:
  "get_transition st (tr_context_id r) (tr_id r) = Some old \<Longrightarrow>
   snd (upsert_transition st r inc) = None"
  by (simp add: upsert_transition_def Let_def get_transition_def dict_get_touch
      split: option.splits)

text \<open>Room for one more transition in a context (\<open>max_transitions_per_context\<close>).\<close>

definition has_room :: "GraphStore \<Rightarrow> string \<Rightarrow> bool" where
  "has_room st c =
     (case max_transitions_per_context (config st) of
        None \<Rightarrow> True
      | Some m \<Rightarrow> int (length (dict_get (transitions st) c [])) < m)"

lemma upsert_transition_new_ok:
  "get_transition st (tr_context_id r) (tr_id r) = None \<Longrightarrow> has_room st (tr_context_id r) \<Longrightarrow>
   snd (upsert_transition st r inc) = None"
  by (auto simp add: upsert_transition_def Let_def get_transition_def dict_get_touch has_room_def
      split: option.splits)

text \<open>The value that P3 of the specification gives \<open>times_observed\<close> after an upsert:
  \<open>max(prior+1, 1)\<close> when incrementing, where a transition that is not stored yet has no
  prior observation, and the supplied value otherwise.\<close>

definition spec_times_observed :: "int option \<Rightarrow> bool \<Rightarrow> int \<Rightarrow> int" where
  "spec_times_observed prior inc supplied =
     (if inc then max ((case prior of None \<Rightarrow> 0 | Some p \<Rightarrow> p) + 1) 1 else supplied)"

definition spec_upsert_result :: "GraphStore \<Rightarrow> TransitionRecord \<Rightarrow> bool \<Rightarrow> bool" where
  "spec_upsert_result st t inc \<longleftrightarrow>
     get_transition (fst (upsert_transition st t inc)) (tr_context_id t) (tr_id t) =
       Some (t\<lparr>times_observed :=
                spec_times_observed
                  (map_option times_observed (get_transition st (tr_context_id t) (tr_id t)))
                  inc (times_observed t)\<rparr>)"

text \<open>\<open>n\<close> calls of \<open>ingest_transition_record\<close> with the same payload.\<close>

fun ingest_repeat :: "nat \<Rightarrow> GraphStore \<Rightarrow> TransitionRecord payload \<Rightarrow> GraphStore" where
  "ingest_repeat 0 st p = st"
| "ingest_repeat (Suc n) st p = ingest_repeat n (fst (ingest_transition_record st p)) p"

definition ingestible :: "GraphStore \<Rightarrow> TransitionRecord \<Rightarrow> bool" where
  "ingestible st t \<longleftrightarrow>
     get_context st (tr_context_id t) \<noteq> None \<and>
     get_state st (tr_context_id t) (source_state_id t) \<noteq> None \<and>
     get_state st (tr_context_id t) (target_state_id t) \<noteq> None"

lemma ingest_ok_store:
  "ingestible st t \<Longrightarrow>
   fst (ingest_transition_record st (Decodes t)) = fst (upsert_transition st t True)"
  by (auto simp: ingestible_def ingest_transition_record_def split: prod.splits option.splits)

lemma ingestible_preserved:
  "ingestible st t \<Longrightarrow> ingestible (fst (upsert_transition st t' inc)) t"
  by (simp add: ingestible_def get_context_def get_state_def upsert_transition_frame)

lemma upsert_transition_get_same:
  assumes "snd (upsert_transition st t inc) = None"
  shows "get_transition (fst (upsert_transition st t inc)) (tr_context_id t) (tr_id t) =
           Some (stored_record st t inc)"
proof -
  from assms have "upsert_transition st t inc = (fst (upsert_transition st t inc), None)"
    by (metis prod.collapse)
  from upsert_transition_ok_get [OF this] show ?thesis by simp
qed

lemma ingest_repeat_existing:
  assumes "ingestible st t"
    and "get_transition st (tr_context_id t) (tr_id t) = Some (t\<lparr>times_observed := k\<rparr>)"
  shows "get_transition (ingest_repeat n st (Decodes t)) (tr_context_id t) (tr_id t) =
           Some (t\<lparr>times_observed := k + int n\<rparr>)"
  using assms
proof (induction n arbitrary: st k)
  case 0
  then show ?case by simp
next
  case (Suc n)
  let ?st' = "fst (upsert_transition st t True)"
  have ok: "snd (upsert_transition st t True) = None"
    using Suc.prems(2) by (rule upsert_transition_existing_ok)
  have "get_transition ?st' (tr_context_id t) (tr_id t) = Some (t\<lparr>times_observed := k + 1\<rparr>)"
    using upsert_transition_get_same [OF ok] Suc.prems(2) by (simp add: stored_record_def)
  from Suc.IH [OF ingestible_preserved [OF Suc.prems(1)] this]
  show ?case using Suc.prems(1) by (simp add: ingest_ok_store add.assoc)
qed

lemma ingest_repeat_new:
  assumes "ingestible st t"
    and "get_transition st (tr_context_id t) (tr_id t) = None"
    and "has_room st (tr_context_id t)"
  shows "get_transition (ingest_repeat (Suc n) st (Decodes t)) (tr_context_id t) (tr_id t) =
           Some (t\<lparr>times_observed := times_observed t + int n\<rparr>)"
proof -
  let ?st' = "fst (upsert_transition st t True)"
  have ok: "snd (upsert_transition st t True) = None"
    using assms(2,3) by (rule upsert_transition_new_ok)
  have "get_transition ?st' (tr_context_id t) (tr_id t) = Some (t\<lparr>times_observed := times_observed t\<rparr>)"
    using upsert_transition_get_same [OF ok] assms(2) by (simp add: stored_record_def)
  from ingest_repeat_existing [OF ingestible_preserved [OF assms(1)] this, of n]
  show ?thesis using assms(1) by (simp add: ingest_ok_store)
qed

text \<open>
  C4, as amended. After a successful \<open>upsert_transition(t, increment_observed)\<close>,
  \<open>get_transition(t.context_id, t.id)\<close> returns \<open>t\<close> with \<open>times_observed\<close> set to the
  stored record's count plus one when a record with that id was stored and
  \<open>increment_observed\<close> is true, and left at the caller's value otherwise (a new id, or
  \<open>increment_observed\<close> false). Ingesting a new transition whose count is 1 four times
  gives \<open>times_observed = 4\<close>.
\<close>

theorem observation_merge:
  "(snd (upsert_transition st t inc) = None \<longrightarrow>
      get_transition (fst (upsert_transition st t inc)) (tr_context_id t) (tr_id t) =
        Some (t\<lparr>times_observed :=
                 (case get_transition st (tr_context_id t) (tr_id t) of
                    Some old \<Rightarrow> if inc then times_observed old + 1 else times_observed t
                  | None \<Rightarrow> times_observed t)\<rparr>))
   \<and> (ingestible st t \<and> get_transition st (tr_context_id t) (tr_id t) = None
        \<and> has_room st (tr_context_id t) \<and> times_observed t = 1 \<longrightarrow>
      get_transition (ingest_repeat 4 st (Decodes t)) (tr_context_id t) (tr_id t) =
        Some (t\<lparr>times_observed := 4\<rparr>))"
proof (intro conjI impI)
  assume "snd (upsert_transition st t inc) = None"
  from upsert_transition_get_same [OF this]
  show "get_transition (fst (upsert_transition st t inc)) (tr_context_id t) (tr_id t) =
        Some (t\<lparr>times_observed :=
                 (case get_transition st (tr_context_id t) (tr_id t) of
                    Some old \<Rightarrow> if inc then times_observed old + 1 else times_observed t
                  | None \<Rightarrow> times_observed t)\<rparr>)"
    by (simp add: stored_record_def split: option.splits)
next
  assume a: "ingestible st t \<and> get_transition st (tr_context_id t) (tr_id t) = None
        \<and> has_room st (tr_context_id t) \<and> times_observed t = 1"
  then have "get_transition (ingest_repeat (Suc 3) st (Decodes t)) (tr_context_id t) (tr_id t) =
           Some (t\<lparr>times_observed := times_observed t + int 3\<rparr>)"
    by (intro ingest_repeat_new) simp_all
  with a show "get_transition (ingest_repeat 4 st (Decodes t)) (tr_context_id t) (tr_id t) =
        Some (t\<lparr>times_observed := 4\<rparr>)"
    by (simp add: eval_nat_numeral)
qed


section \<open>Example data\<close>

definition example_config :: GraphStoreConfig where
  "example_config =
     \<lparr>max_contexts = None, max_states_per_context = None, max_transitions_per_context = None\<rparr>"

definition example_context :: Context where
  "example_context =
     \<lparr>context_id = ''ctx1'', app_id = ''app'', version = None, platform = OTHER,
      locale_tag = None, schema_version = ''1.0.0'', created_at = ''2024-01-01T00:00:00Z'',
      environment = [], metadata = []\<rparr>"

definition example_state :: "string \<Rightarrow> StateRecord" where
  "example_state i =
     \<lparr>sr_context_id = ''ctx1'',
      sr_state = \<lparr>s_id = i, s_app_id = ''app'', s_version = None, s_platform = OTHER,
                  s_locale = None, fingerprints = [], screenshot_ref = None, s_metadata = []\<rparr>,
      sr_discovered_at = ''2024-01-01T00:00:00Z'', is_entry = False, is_terminal = False,
      tags = [], sr_metadata = []\<rparr>"

definition example_transition :: "string \<Rightarrow> string \<Rightarrow> string \<Rightarrow> TransitionRecord" where
  "example_transition i src tgt =
     \<lparr>tr_context_id = ''ctx1'',
      transition = \<lparr>t_id = i, t_source_state_id = src, t_target_state_id = tgt,
                    t_action = \<lparr>action_type = CLICK, element_id = None, raw_input = None,
                                 a_metadata = []\<rparr>,
                    t_intent_id = None, t_confidence = 1, t_metadata = []\<rparr>,
      tr_discovered_at = ''2024-01-01T00:00:00Z'', times_observed = 1, tr_metadata = []\<rparr>"

text \<open>Scenario D of the specification: states A, B, C, D and the transitions
  \<open>t1: A \<rightarrow> B\<close>, \<open>t2: B \<rightarrow> C\<close>, \<open>t3: C \<rightarrow> D\<close>, \<open>t4: A \<rightarrow> D\<close>.\<close>

definition scenario_ops :: "store_op list" where
  "scenario_ops =
     [UpsertContext example_context,
      UpsertState (example_state ''A''), UpsertState (example_state ''B''),
      UpsertState (example_state ''C''), UpsertState (example_state ''D''),
      UpsertTransition (example_transition ''t1'' ''A'' ''B'') True,
      UpsertTransition (example_transition ''t2'' ''B'' ''C'') True,
      UpsertTransition (example_transition ''t3'' ''C'' ''D'') True,
      UpsertTransition (example_transition ''t4'' ''A'' ''D'') True]"

lemmas example_defs =
  example_config_def example_context_def example_state_def example_transition_def
  scenario_ops_def new_store_def upsert_context_def upsert_state_def upsert_transition_def
  Let_def dict_get_def dd_touch_def index_add_def index_discard_def pyset_add_def
  pyset_discard_def sr_id_def tr_id_def source_state_id_def target_state_id_def
  get_transition_def get_state_def get_context_def

lemma scenario_get_t4:
  "get_transition (run_ops (new_store example_config) scenario_ops) ''ctx1'' ''t4'' =
     Some (example_transition ''t4'' ''A'' ''D'')"
  by (simp add: example_defs)

text \<open>
  C1 on Scenario D.
\<close>

theorem incidence_index_consistency_witness:
  "''t4'' \<in> set (outgoing_ids (run_ops (new_store example_config) scenario_ops) ''ctx1'' ''A'')
   \<and> ''t4'' \<in> set (incoming_ids (run_ops (new_store example_config) scenario_ops) ''ctx1'' ''D'')
   \<and> ''t4'' \<notin> set (outgoing_ids (run_ops (new_store example_config) scenario_ops) ''ctx1'' ''B'')"
  using incidence_index_consistency [of "''t4''" example_config scenario_ops "''ctx1''" "''A''"]
    incidence_index_consistency [of "''t4''" example_config scenario_ops "''ctx1''" "''D''"]
    incidence_index_consistency [of "''t4''" example_config scenario_ops "''ctx1''" "''B''"]
  by (simp add: scenario_get_t4) (simp add: example_transition_def source_state_id_def target_state_id_def)


text \<open>
  C10 on Scenario D, with a new state \<open>E\<close>.
\<close>

theorem upsert_state_frame_condition_witness:
  "transitions (fst (upsert_state (run_ops (new_store example_config) scenario_ops) (example_state ''E'')))
     = transitions (run_ops (new_store example_config) scenario_ops)
   \<and> outgoing (fst (upsert_state (run_ops (new_store example_config) scenario_ops) (example_state ''E'')))
     = outgoing (run_ops (new_store example_config) scenario_ops)
   \<and> incoming (fst (upsert_state (run_ops (new_store example_config) scenario_ops) (example_state ''E'')))
     = incoming (run_ops (new_store example_config) scenario_ops)
   \<and> map_of (states (fst (upsert_state (run_ops (new_store example_config) scenario_ops)
                            (example_state ''E'')))) ''ctx2''
     = map_of (states (run_ops (new_store example_config) scenario_ops)) ''ctx2''"
  using upsert_state_frame_condition
    [of "run_ops (new_store example_config) scenario_ops" "example_state ''E''"]
  by (simp add: example_state_def)

text \<open>Scenario A of the specification: the context exists, no state does.\<close>

definition scenario_a_store :: GraphStore where
  "scenario_a_store = run_ops (new_store example_config) [UpsertContext example_context]"

text \<open>
  C3 on Scenario A, with the message the source builds.
\<close>

theorem failed_transition_ingest_unchanged_witness:
  "ingest_transition_record scenario_a_store (Decodes (example_transition ''t'' ''s1'' ''s2'')) =
     (scenario_a_store,
      Inl (IngestError (''Source state '' @ quoted ''s1'' @ '' not found in context ''
                        @ quoted ''ctx1'')))"
proof -
  have h: "get_state scenario_a_store (tr_context_id (example_transition ''t'' ''s1'' ''s2''))
             (source_state_id (example_transition ''t'' ''s1'' ''s2'')) = None"
    by (simp add: scenario_a_store_def example_defs)
  from failed_transition_ingest_unchanged [of scenario_a_store "example_transition ''t'' ''s1'' ''s2''"] h
  obtain msg where "ingest_transition_record scenario_a_store
      (Decodes (example_transition ''t'' ''s1'' ''s2'')) = (scenario_a_store, Inl (IngestError msg))"
    by blast
  moreover have "snd (ingest_transition_record scenario_a_store
      (Decodes (example_transition ''t'' ''s1'' ''s2''))) =
      Inl (IngestError (''Source state '' @ quoted ''s1'' @ '' not found in context ''
                        @ quoted ''ctx1''))"
    by (simp add: ingest_transition_record_def scenario_a_store_def example_defs)
  ultimately show ?thesis by simp
qed

text \<open>
  C5 on Scenario D.
\<close>

theorem times_observed_lower_bound_witness:
  "get_transition (run_ops (new_store example_config) scenario_ops) ''ctx1'' ''t4'' =
     Some (example_transition ''t4'' ''A'' ''D'')
   \<and> 1 \<le> times_observed (example_transition ''t4'' ''A'' ''D'')"
proof -
  have wf: "\<forall>x\<in>set scenario_ops. well_formed_op x"
    by (simp add: scenario_ops_def example_transition_def)
  from times_observed_lower_bound [OF wf scenario_get_t4] scenario_get_t4
  show ?thesis by simp
qed

text \<open>
  The store does not check the field itself: a new record whose count is 0 is stored as
  it is, whatever \<open>increment_observed\<close> says. The bound of C5 is a property of stores fed
  with records that satisfy it.
\<close>

lemma times_observed_not_validated:
  "map_option times_observed
     (get_transition
        (fst (upsert_transition (new_store example_config)
                ((example_transition ''t'' ''s1'' ''s2'')\<lparr>times_observed := 0\<rparr>) True))
        ''ctx1'' ''t'') = Some 0"
  by (simp add: example_defs)

text \<open>Scenarios B and C: the context and the states \<open>s1\<close> and \<open>s2\<close> exist.\<close>

definition scenario_b_store :: GraphStore where
  "scenario_b_store =
     run_ops (new_store example_config)
       [UpsertContext example_context, UpsertState (example_state ''s1''),
        UpsertState (example_state ''s2'')]"

text \<open>
  C4 on Scenarios B and C: four ingests of a new transition, and an upsert that does not
  increment.
\<close>

theorem observation_merge_witness:
  "get_transition (ingest_repeat 4 scenario_b_store (Decodes (example_transition ''t'' ''s1'' ''s2'')))
     ''ctx1'' ''t'' = Some ((example_transition ''t'' ''s1'' ''s2'')\<lparr>times_observed := 4\<rparr>)
   \<and> get_transition (fst (upsert_transition scenario_b_store
          ((example_transition ''t'' ''s1'' ''s2'')\<lparr>times_observed := 7\<rparr>) False)) ''ctx1'' ''t''
       = Some ((example_transition ''t'' ''s1'' ''s2'')\<lparr>times_observed := 7\<rparr>)"
proof -
  let ?t = "example_transition ''t'' ''s1'' ''s2''"
  have ids: "tr_context_id ?t = ''ctx1''" "tr_id ?t = ''t''" "times_observed ?t = 1"
    by (simp_all add: example_transition_def tr_id_def)
  have a: "ingestible scenario_b_store ?t"
    by (simp add: ingestible_def scenario_b_store_def example_defs)
  have b: "get_transition scenario_b_store ''ctx1'' ''t'' = None"
    by (simp add: scenario_b_store_def example_defs)
  have c: "has_room scenario_b_store ''ctx1''"
    by (simp add: has_room_def scenario_b_store_def example_defs)
  have d: "snd (upsert_transition scenario_b_store (?t\<lparr>times_observed := 7\<rparr>) False) = None"
    using b c ids by (intro upsert_transition_new_ok) (simp_all add: tr_id_def)
  from observation_merge [of scenario_b_store ?t True] a b c ids
    observation_merge [of scenario_b_store "?t\<lparr>times_observed := 7\<rparr>" False] d
  show ?thesis by (simp add: tr_id_def)
qed

text \<open>
  C4 as stated fails on a new id: the caller's count 5 is stored, where
  \<open>max(prior+1, 1)\<close> is 1.
\<close>

theorem observation_merge_counterexample:
  "\<not> spec_upsert_result (new_store example_config)
       ((example_transition ''t'' ''s1'' ''s2'')\<lparr>times_observed := 5\<rparr>) True"
  by (simp add: spec_upsert_result_def spec_times_observed_def example_defs)

section \<open>The workflow store (\<open>atlas/api/endpoints/workflows.py\<close>)\<close>

text \<open>The fields of \<open>Workflow\<close> that other records also have carry the prefix \<open>wf_\<close>.\<close>

record Workflow =
  workflow_id :: string
  wf_context_id :: string
  label :: string
  description :: string
  transition_ids :: "string list"
  wf_intent_id :: "string option"
  wf_tags :: "string list"
  wf_metadata :: "(string, json) dict"

record WorkflowStore =
  workflows :: "(string, Workflow) dict"
  by_context :: "(string, string list) dict"

definition new_workflow_store :: WorkflowStore where
  "new_workflow_store = \<lparr>workflows = [], by_context = []\<rparr>"

definition upsert_workflow :: "WorkflowStore \<Rightarrow> Workflow \<Rightarrow> WorkflowStore" where
  "upsert_workflow ws workflow =
     ws\<lparr>workflows := AList.update (workflow_id workflow) workflow (workflows ws),
        by_context := AList.update (wf_context_id workflow)
                        (pyset_add (workflow_id workflow)
                           (dict_get (by_context ws) (wf_context_id workflow) []))
                        (by_context ws)\<rparr>"

definition get_workflow :: "WorkflowStore \<Rightarrow> string \<Rightarrow> Workflow option" where
  "get_workflow ws wid = map_of (workflows ws) wid"

text \<open>\<open>[self._workflows[w_id] for w_id in ids]\<close>: the first id that is not a key raises
  \<open>KeyError\<close>.\<close>

fun lookup_each :: "(string, Workflow) dict \<Rightarrow> string list \<Rightarrow> error + Workflow list" where
  "lookup_each d [] = Inr []"
| "lookup_each d (w_id # ids) =
     (case map_of d w_id of
        None \<Rightarrow> Inl (KeyError w_id)
      | Some wflow \<Rightarrow> (case lookup_each d ids of Inl e \<Rightarrow> Inl e | Inr wflows \<Rightarrow> Inr (wflow # wflows)))"

text \<open>\<open>list_workflows\<close>; the normalisation \<open>s.strip().lower()\<close> of the standard library
  is the parameter \<open>normalise\<close>.\<close>

definition list_workflows ::
  "(string \<Rightarrow> string) \<Rightarrow> WorkflowStore \<Rightarrow> string option \<Rightarrow> string option \<Rightarrow> string option
     \<Rightarrow> error + Workflow list" where
  "list_workflows normalise ws ctx intent tag =
     (case (case ctx of
              Some c \<Rightarrow> lookup_each (workflows ws) (dict_get (by_context ws) c [])
            | None \<Rightarrow> Inr (map snd (workflows ws))) of
        Inl e \<Rightarrow> Inl e
      | Inr wflows \<Rightarrow>
          let wflows1 = (case intent of
                        Some i \<Rightarrow> filter (\<lambda>wflow. wf_intent_id wflow = Some i) wflows
                      | None \<Rightarrow> wflows);
              wflows2 = (case tag of
                        Some t \<Rightarrow> filter (\<lambda>wflow. list_ex (\<lambda>tt. normalise tt = normalise t) (wf_tags wflow)) wflows1
                      | None \<Rightarrow> wflows1)
          in Inr wflows2)"

definition delete_workflow :: "WorkflowStore \<Rightarrow> string \<Rightarrow> WorkflowStore \<times> bool" where
  "delete_workflow ws wid =
     (case map_of (workflows ws) wid of
        None \<Rightarrow> (ws, False)
      | Some wflow \<Rightarrow>
          let ws1 = ws\<lparr>workflows := AList.delete wid (workflows ws)\<rparr> in
          (case map_of (by_context ws1) (wf_context_id wflow) of
             None \<Rightarrow> (ws1, True)
           | Some ctx_set \<Rightarrow>
               let ctx_set1 = pyset_discard wid ctx_set in
               if ctx_set1 = []
               then (ws1\<lparr>by_context := AList.delete (wf_context_id wflow) (by_context ws1)\<rparr>, True)
               else (ws1\<lparr>by_context := AList.update (wf_context_id wflow) ctx_set1 (by_context ws1)\<rparr>,
                     True)))"

definition example_workflow :: "string \<Rightarrow> string \<Rightarrow> Workflow" where
  "example_workflow wid c =
     \<lparr>workflow_id = wid, wf_context_id = c, label = ''save'', description = ''save a file'',
      transition_ids = [], wf_intent_id = None, wf_tags = [], wf_metadata = []\<rparr>"

text \<open>
  C9, at the failing input. A workflow \<open>w\<close> is stored under context \<open>A\<close> and then upserted
  again under context \<open>B\<close>: \<open>upsert_workflow\<close> adds \<open>w\<close> to the index of \<open>B\<close> and leaves it in
  the index of \<open>A\<close>, so that \<open>list_workflows(context_id = A)\<close> returns a workflow of
  context \<open>B\<close>; after \<open>delete_workflow(w)\<close> the same listing raises \<open>KeyError\<close>.
\<close>

theorem workflow_context_index_stale:
  "list_workflows normalise
     (upsert_workflow (upsert_workflow new_workflow_store (example_workflow ''w'' ''A''))
        (example_workflow ''w'' ''B''))
     (Some ''A'') None None = Inr [example_workflow ''w'' ''B'']
   \<and> wf_context_id (example_workflow ''w'' ''B'') = ''B''
   \<and> list_workflows normalise
       (fst (delete_workflow
          (upsert_workflow (upsert_workflow new_workflow_store (example_workflow ''w'' ''A''))
             (example_workflow ''w'' ''B'')) ''w''))
       (Some ''A'') None None = Inl (KeyError ''w'')"
  by (simp add: list_workflows_def upsert_workflow_def delete_workflow_def new_workflow_store_def
      example_workflow_def dict_get_def pyset_add_def pyset_discard_def Let_def)

section \<open>The state tracker (\<open>theseus/core/state_tracker.py\<close>)\<close>

record TrackedState =
  ts_state :: UIState
  first_seen_at :: string
  last_seen_at :: string
  times_seen :: int

text \<open>\<open>TrackedState.touch\<close>; \<open>now\<close> is what the clock reads.\<close>

definition touch :: "TrackedState \<Rightarrow> string \<Rightarrow> TrackedState" where
  "touch tracked now = tracked\<lparr>times_seen := times_seen tracked + 1, last_seen_at := now\<rparr>"

record StateTrackerConfig =
  prefer_fingerprint_keys :: "string list"
  allow_id_fallback :: bool
  auto_generate_ids :: bool

record StateTracker =
  tracker_config :: StateTrackerConfig
  states_by_id :: "(string, TrackedState) dict"
  index_by_key :: "(string, string) dict"

definition new_tracker :: "StateTrackerConfig \<Rightarrow> StateTracker" where
  "new_tracker cfg = \<lparr>tracker_config = cfg, states_by_id = [], index_by_key = []\<rparr>"

text \<open>The loop of \<open>_make_dedup_key\<close> over the configured keys: the first key whose
  fingerprint is a non-empty string gives \<open>"{key}:{value}"\<close>.\<close>

fun fingerprint_key :: "string list \<Rightarrow> (string, string) dict \<Rightarrow> string option" where
  "fingerprint_key [] fingerprint_map = None"
| "fingerprint_key (key # keys) fingerprint_map =
     (case map_of fingerprint_map key of
        Some v \<Rightarrow> if v \<noteq> [] then Some (key @ '':'' @ v) else fingerprint_key keys fingerprint_map
      | None \<Rightarrow> fingerprint_key keys fingerprint_map)"

definition make_dedup_key :: "StateTrackerConfig \<Rightarrow> UIState \<Rightarrow> string option" where
  "make_dedup_key cfg state =
     (case fingerprint_key (prefer_fingerprint_keys cfg) (fingerprints state) of
        Some k \<Rightarrow> Some k
      | None \<Rightarrow>
          if allow_id_fallback cfg \<and> s_id state \<noteq> [] then Some (''id:'' @ s_id state) else None)"

text \<open>
  \<open>observe_state\<close>. What the environment supplies is passed in: \<open>uuid\<close> is the value of
  \<open>uuid.uuid4().hex\<close>, \<open>now1\<close> and \<open>now2\<close> are the readings of the clock (a new
  \<open>TrackedState\<close> reads it twice, \<open>touch\<close> once). The result is the tracker after the
  call and the returned pair, or the \<open>KeyError\<close> of \<open>self._states_by_id[state_id]\<close>.
\<close>

definition observe_state ::
  "StateTracker \<Rightarrow> UIState \<Rightarrow> string \<Rightarrow> string \<Rightarrow> string
     \<Rightarrow> StateTracker \<times> (error + string \<times> bool)" where
  "observe_state tr state0 uuid now1 now2 =
     (let state = (if s_id state0 = [] \<and> auto_generate_ids (tracker_config tr)
                   then state0\<lparr>s_id := uuid\<rparr> else state0);
          dedup_key = make_dedup_key (tracker_config tr) state;
          known = (case dedup_key of None \<Rightarrow> None | Some k \<Rightarrow> map_of (index_by_key tr) k)
      in case known of
           Some state_id \<Rightarrow>
             (case map_of (states_by_id tr) state_id of
                None \<Rightarrow> (tr, Inl (KeyError state_id))
              | Some tracked \<Rightarrow>
                  (tr\<lparr>states_by_id := AList.update state_id (touch tracked now1) (states_by_id tr)\<rparr>,
                   Inr (state_id, False)))
         | None \<Rightarrow>
             let state_id = s_id state;
                 tracked = \<lparr>ts_state = state, first_seen_at = now1, last_seen_at = now2,
                            times_seen = 1\<rparr>;
                 tr1 = tr\<lparr>states_by_id := AList.update state_id tracked (states_by_id tr)\<rparr>;
                 tr2 = (case dedup_key of
                          None \<Rightarrow> tr1
                        | Some k \<Rightarrow> tr1\<lparr>index_by_key := AList.update k state_id (index_by_key tr1)\<rparr>)
             in (tr2, Inr (state_id, True)))"

definition get_tracked :: "StateTracker \<Rightarrow> string \<Rightarrow> TrackedState option" where
  "get_tracked tr state_id = map_of (states_by_id tr) state_id"

definition all_states :: "StateTracker \<Rightarrow> UIState list" where
  "all_states tr = map (\<lambda>(k, ts). ts_state ts) (states_by_id tr)"

text \<open>The state as \<open>observe_state\<close> registers it: an empty id is replaced when ids are
  generated.\<close>

definition with_id :: "StateTrackerConfig \<Rightarrow> UIState \<Rightarrow> string \<Rightarrow> UIState" where
  "with_id cfg state uuid =
     (if s_id state = [] \<and> auto_generate_ids cfg then state\<lparr>s_id := uuid\<rparr> else state)"

lemma make_dedup_key_fingerprint:
  "fingerprint_key (prefer_fingerprint_keys cfg) (fingerprints state) = Some k \<Longrightarrow>
   make_dedup_key cfg (with_id cfg state uuid) = Some k"
  by (simp add: make_dedup_key_def with_id_def)

lemma length_update_present:
  "map_of d k = Some v \<Longrightarrow> length (AList.update k v' d) = length d"
  by (induction d) (auto split: if_splits)

lemma keys_update_present:
  "map_of d k = Some v \<Longrightarrow> map fst (AList.update k v' d) = map fst d"
  by (induction d) (auto split: if_splits)

lemma observe_new:
  assumes "make_dedup_key (tracker_config tr) (with_id (tracker_config tr) x uuid) = Some k"
    and "map_of (index_by_key tr) k = None"
  shows "observe_state tr x uuid now1 now2 =
           (tr\<lparr>states_by_id :=
                  AList.update (s_id (with_id (tracker_config tr) x uuid))
                    \<lparr>ts_state = with_id (tracker_config tr) x uuid, first_seen_at = now1,
                      last_seen_at = now2, times_seen = 1\<rparr> (states_by_id tr),
               index_by_key :=
                  AList.update k (s_id (with_id (tracker_config tr) x uuid)) (index_by_key tr)\<rparr>,
            Inr (s_id (with_id (tracker_config tr) x uuid), True))"
  using assms unfolding observe_state_def with_id_def [symmetric] by (simp add: Let_def)

lemma observe_known:
  assumes "make_dedup_key (tracker_config tr) (with_id (tracker_config tr) y uuid) = Some k"
    and "map_of (index_by_key tr) k = Some i"
    and "map_of (states_by_id tr) i = Some tracked"
  shows "observe_state tr y uuid now1 now2 =
           (tr\<lparr>states_by_id := AList.update i (touch tracked now1) (states_by_id tr)\<rparr>,
            Inr (i, False))"
  using assms unfolding observe_state_def with_id_def [symmetric] by (simp add: Let_def)

text \<open>
  C8. Two states \<open>x\<close> and \<open>y\<close> for which the configured fingerprint keys give the same
  dedup key \<open>k\<close>, observed one after the other by a tracker that does not know \<open>k\<close> yet:
  the first call returns \<open>(id1, True)\<close> and registers a \<open>TrackedState\<close> with
  \<open>times_seen = 1\<close>; the second returns \<open>(id1, False)\<close> whatever the id of \<open>y\<close> is,
  raises \<open>times_seen\<close> to 2 and leaves the tracked states the same in number and in
  keys. \<open>id1\<close> is the id of \<open>x\<close> as registered: the generated one when the id of \<open>x\<close> is
  empty and \<open>auto_generate_ids\<close> is set.
\<close>

theorem state_tracker_deduplication:
  assumes "fingerprint_key (prefer_fingerprint_keys (tracker_config tr)) (fingerprints x) = Some k"
    and "fingerprint_key (prefer_fingerprint_keys (tracker_config tr)) (fingerprints y) = Some k"
    and "map_of (index_by_key tr) k = None"
    and "x1 = with_id (tracker_config tr) x uuid1"
    and "tr1 = fst (observe_state tr x uuid1 a1 a2)"
    and "tr2 = fst (observe_state tr1 y uuid2 b1 b2)"
  shows "snd (observe_state tr x uuid1 a1 a2) = Inr (s_id x1, True)
       \<and> get_tracked tr1 (s_id x1) =
           Some \<lparr>ts_state = x1, first_seen_at = a1, last_seen_at = a2, times_seen = 1\<rparr>
       \<and> snd (observe_state tr1 y uuid2 b1 b2) = Inr (s_id x1, False)
       \<and> get_tracked tr2 (s_id x1) =
           Some \<lparr>ts_state = x1, first_seen_at = a1, last_seen_at = b1, times_seen = 2\<rparr>
       \<and> length (states_by_id tr2) = length (states_by_id tr1)
       \<and> map fst (states_by_id tr2) = map fst (states_by_id tr1)
       \<and> (s_id x = [] \<and> auto_generate_ids (tracker_config tr) \<longrightarrow> s_id x1 = uuid1)"
proof -
  let ?cfg = "tracker_config tr"
  let ?ts = "\<lparr>ts_state = x1, first_seen_at = a1, last_seen_at = a2, times_seen = 1\<rparr>"
  have kx: "make_dedup_key ?cfg (with_id ?cfg x uuid1) = Some k"
    using assms(1) by (rule make_dedup_key_fingerprint)
  have first: "observe_state tr x uuid1 a1 a2 =
      (tr\<lparr>states_by_id := AList.update (s_id x1) ?ts (states_by_id tr),
          index_by_key := AList.update k (s_id x1) (index_by_key tr)\<rparr>, Inr (s_id x1, True))"
    using observe_new [OF kx assms(3)] assms(4) by simp
  then have tr1: "tr1 = tr\<lparr>states_by_id := AList.update (s_id x1) ?ts (states_by_id tr),
          index_by_key := AList.update k (s_id x1) (index_by_key tr)\<rparr>"
    using assms(5) by simp
  have cfg1: "tracker_config tr1 = ?cfg" by (simp add: tr1)
  have ky: "make_dedup_key (tracker_config tr1) (with_id (tracker_config tr1) y uuid2) = Some k"
    unfolding cfg1 using assms(2) by (rule make_dedup_key_fingerprint)
  have idx: "map_of (index_by_key tr1) k = Some (s_id x1)"
    by (simp add: tr1 map_of_update)
  have got: "map_of (states_by_id tr1) (s_id x1) = Some ?ts"
    by (simp add: tr1 map_of_update)
  have second: "observe_state tr1 y uuid2 b1 b2 =
      (tr1\<lparr>states_by_id := AList.update (s_id x1) (touch ?ts b1) (states_by_id tr1)\<rparr>,
       Inr (s_id x1, False))"
    by (rule observe_known [OF ky idx got])
  then have tr2: "tr2 = tr1\<lparr>states_by_id := AList.update (s_id x1) (touch ?ts b1) (states_by_id tr1)\<rparr>"
    using assms(6) by simp
  have gen: "s_id x = [] \<and> auto_generate_ids ?cfg \<longrightarrow> s_id x1 = uuid1"
    by (simp add: assms(4) with_id_def)
  have same: "length (states_by_id tr2) = length (states_by_id tr1)"
    "map fst (states_by_id tr2) = map fst (states_by_id tr1)"
    by (simp_all add: tr2 length_update_present [OF got] keys_update_present [OF got])
  have seen: "get_tracked tr2 (s_id x1) =
      Some \<lparr>ts_state = x1, first_seen_at = a1, last_seen_at = b1, times_seen = 2\<rparr>"
    by (simp add: get_tracked_def tr2 map_of_update touch_def)
  show ?thesis
    using first second got gen same seen by (simp add: get_tracked_def)
qed


text \<open>Scenario F of the specification.\<close>

definition scenario_f_config :: StateTrackerConfig where
  "scenario_f_config =
     \<lparr>prefer_fingerprint_keys = [''structural''], allow_id_fallback = True,
      auto_generate_ids = True\<rparr>"

definition scenario_f_state :: "string \<Rightarrow> UIState" where
  "scenario_f_state i =
     \<lparr>s_id = i, s_app_id = ''app'', s_version = None, s_platform = OTHER, s_locale = None,
      fingerprints = [(''structural'', ''h1'')], screenshot_ref = None, s_metadata = []\<rparr>"

definition scenario_f_first :: StateTracker where
  "scenario_f_first =
     fst (observe_state (new_tracker scenario_f_config) (scenario_f_state []) ''g1''
            ''2024-01-01T00:00:00Z'' ''2024-01-01T00:00:00Z'')"

definition scenario_f_second :: StateTracker where
  "scenario_f_second =
     fst (observe_state scenario_f_first (scenario_f_state ''other'') ''g2''
            ''2024-01-01T00:00:05Z'' ''2024-01-01T00:00:05Z'')"

text \<open>
  C8 on Scenario F.
\<close>

theorem state_tracker_deduplication_witness:
  "snd (observe_state (new_tracker scenario_f_config) (scenario_f_state []) ''g1''
          ''2024-01-01T00:00:00Z'' ''2024-01-01T00:00:00Z'') = Inr (''g1'', True)
   \<and> snd (observe_state scenario_f_first (scenario_f_state ''other'') ''g2''
          ''2024-01-01T00:00:05Z'' ''2024-01-01T00:00:05Z'') = Inr (''g1'', False)
   \<and> map_option times_seen (get_tracked scenario_f_second ''g1'') = Some 2
   \<and> length (all_states scenario_f_first) = 1
   \<and> length (all_states scenario_f_second) = 1"
proof -
  let ?tr = "new_tracker scenario_f_config"
  have cfg: "tracker_config ?tr = scenario_f_config" by (simp add: new_tracker_def)
  have k1: "fingerprint_key (prefer_fingerprint_keys (tracker_config ?tr))
              (fingerprints (scenario_f_state [])) = Some ''structural:h1''"
    by (simp add: new_tracker_def scenario_f_config_def scenario_f_state_def)
  have k2: "fingerprint_key (prefer_fingerprint_keys (tracker_config ?tr))
              (fingerprints (scenario_f_state ''other'')) = Some ''structural:h1''"
    by (simp add: new_tracker_def scenario_f_config_def scenario_f_state_def)
  have fresh: "map_of (index_by_key ?tr) ''structural:h1'' = None"
    by (simp add: new_tracker_def)
  have x1: "with_id (tracker_config ?tr) (scenario_f_state []) ''g1'' = scenario_f_state ''g1''"
    by (simp add: with_id_def new_tracker_def scenario_f_config_def scenario_f_state_def)
  have one: "length (states_by_id scenario_f_first) = 1"
    by (simp add: scenario_f_first_def observe_state_def new_tracker_def Let_def
        make_dedup_key_def scenario_f_config_def scenario_f_state_def)
  from state_tracker_deduplication [OF k1 k2 fresh x1 [symmetric] scenario_f_first_def
      scenario_f_second_def] one
  show ?thesis by (simp add: scenario_f_state_def all_states_def)
qed

section \<open>The signer (\<open>atlas/storage/signing.py\<close>)\<close>

text \<open>
  Byte strings are lists of \<open>char\<close>, which holds one byte. Two functions of the standard
  library are parameters of the model: \<open>canonical\<close> is \<open>_canonical_json_bytes\<close>, that is
  \<open>json.dumps(payload, sort_keys=True, ...).encode("utf-8")\<close>, which raises on a payload
  that is not JSON-serializable, and the field \<open>hmac_digest\<close> of the signer is
  \<open>hmac.new(key, msg, digestmod).digest()\<close> for the configured algorithm.
\<close>

type_synonym bytes = string

record Signer =
  key_bytes :: bytes
  hmac_digest :: "bytes \<Rightarrow> bytes \<Rightarrow> bytes"

text \<open>\<open>base64.urlsafe_b64encode\<close>.\<close>

definition b64_alphabet :: string where
  "b64_alphabet = ''ABCDEFGHIJKLMNOPQRSTUVWXYZabcdefghijklmnopqrstuvwxyz0123456789-_''"

definition b64_char :: "nat \<Rightarrow> char" where
  "b64_char n = b64_alphabet ! (n mod 64)"

fun urlsafe_b64encode :: "bytes \<Rightarrow> string" where
  "urlsafe_b64encode [] = []"
| "urlsafe_b64encode [a] =
     (let x = (of_char a :: nat) in
      [b64_char (x div 4), b64_char ((x mod 4) * 16), CHR ''='', CHR ''=''])"
| "urlsafe_b64encode [a, b] =
     (let x = (of_char a :: nat); y = (of_char b :: nat) in
      [b64_char (x div 4), b64_char ((x mod 4) * 16 + y div 16), b64_char ((y mod 16) * 4),
       CHR ''=''])"
| "urlsafe_b64encode (a # b # c # rest) =
     (let x = (of_char a :: nat); y = (of_char b :: nat); z = (of_char c :: nat) in
      [b64_char (x div 4), b64_char ((x mod 4) * 16 + y div 16),
       b64_char ((y mod 16) * 4 + z div 64), b64_char (z mod 64)] @ urlsafe_b64encode rest)"

text \<open>\<open>s.rstrip("=")\<close>.\<close>

definition rstrip_eq :: "string \<Rightarrow> string" where
  "rstrip_eq s = rev (dropWhile (\<lambda>c. c = CHR ''='') (rev s))"

definition sign :: "Signer \<Rightarrow> ('p \<Rightarrow> error + bytes) \<Rightarrow> 'p \<Rightarrow> error + string" where
  "sign signer canonical payload =
     (case canonical payload of
        Inl e \<Rightarrow> Inl e
      | Inr canon \<Rightarrow>
          Inr (rstrip_eq (urlsafe_b64encode (hmac_digest signer (key_bytes signer) canon))))"

text \<open>The truth value of a Python object, as \<open>not signature\<close> reads it.\<close>

fun truthy :: "json \<Rightarrow> bool" where
  "truthy JNull = False"
| "truthy (JBool b) = b"
| "truthy (JInt n) = (n \<noteq> 0)"
| "truthy (JStr s) = (s \<noteq> [])"
| "truthy (JArr xs) = (xs \<noteq> [])"
| "truthy (JObj d) = (d \<noteq> [])"

text \<open>\<open>hmac.compare_digest(expected, signature)\<close> with a string as first argument: the
  second must be a string too, both of ASCII characters only; anything else raises
  \<open>TypeError\<close>.\<close>

definition is_ascii :: "string \<Rightarrow> bool" where
  "is_ascii s = list_all (\<lambda>c. (of_char c :: nat) < 128) s"

definition compare_digest :: "string \<Rightarrow> json \<Rightarrow> error + bool" where
  "compare_digest expected signature =
     (case signature of
        JStr s \<Rightarrow>
          if is_ascii expected \<and> is_ascii s then Inr (expected = s)
          else Inl (TypeError ''comparing strings with non-ASCII characters is not supported'')
      | _ \<Rightarrow> Inl (TypeError ''unsupported operand types(s) or combination of types''))"

definition verify :: "Signer \<Rightarrow> ('p \<Rightarrow> error + bytes) \<Rightarrow> 'p \<Rightarrow> json \<Rightarrow> error + bool" where
  "verify signer canonical payload signature =
     (if \<not> truthy signature then Inr False
      else case sign signer canonical payload of
             Inl e \<Rightarrow> Inl e
           | Inr expected \<Rightarrow> compare_digest expected signature)"

definition sign_record ::
  "Signer \<Rightarrow> ((string, json) dict \<Rightarrow> error + bytes) \<Rightarrow> (string, json) dict \<Rightarrow> string
     \<Rightarrow> error + (string, json) dict" where
  "sign_record signer canonical record field =
     (let payload = AList.delete field record in
      case sign signer canonical payload of
        Inl e \<Rightarrow> Inl e
      | Inr sig \<Rightarrow> Inr (AList.update field (JStr sig) payload))"

definition verify_record ::
  "Signer \<Rightarrow> ((string, json) dict \<Rightarrow> error + bytes) \<Rightarrow> (string, json) dict \<Rightarrow> string
     \<Rightarrow> error + bool" where
  "verify_record signer canonical record field =
     (case map_of record field of
        None \<Rightarrow> Inr False
      | Some signature \<Rightarrow> verify signer canonical (AList.delete field record) signature)"

subsection \<open>The signature is a non-empty ASCII string\<close>

lemma b64_alphabet_ascii: "\<forall>c\<in>set b64_alphabet. (of_char c :: nat) < 128 \<and> c \<noteq> CHR ''=''"
  by (simp add: b64_alphabet_def)

lemma b64_char_in: "b64_char n \<in> set b64_alphabet"
  unfolding b64_char_def by (rule nth_mem) (simp add: b64_alphabet_def)

lemma b64_char_ascii: "(of_char (b64_char n) :: nat) < 128"
  using b64_alphabet_ascii b64_char_in by blast

lemma b64_char_not_pad: "b64_char n \<noteq> CHR ''=''"
  using b64_alphabet_ascii b64_char_in by blast

lemma b64encode_ascii: "is_ascii (urlsafe_b64encode raw)"
  by (induction raw rule: urlsafe_b64encode.induct)
     (simp_all add: is_ascii_def Let_def b64_char_ascii)

lemma b64encode_hd: "raw \<noteq> [] \<Longrightarrow> \<exists>n rest. urlsafe_b64encode raw = b64_char n # rest"
  by (cases raw rule: urlsafe_b64encode.cases) (auto simp add: Let_def)

lemma rstrip_eq_subset: "set (rstrip_eq s) \<subseteq> set s"
  using set_dropWhileD by (fastforce simp: rstrip_eq_def)

lemma rstrip_eq_nonempty: "c \<in> set s \<Longrightarrow> c \<noteq> CHR ''='' \<Longrightarrow> rstrip_eq s \<noteq> []"
  by (auto simp: rstrip_eq_def dropWhile_eq_Nil_conv)

lemma signature_ok:
  assumes "raw \<noteq> []"
  shows "rstrip_eq (urlsafe_b64encode raw) \<noteq> [] \<and> is_ascii (rstrip_eq (urlsafe_b64encode raw))"
proof -
  from b64encode_hd [OF assms] obtain n rest where e: "urlsafe_b64encode raw = b64_char n # rest"
    by blast
  have "rstrip_eq (urlsafe_b64encode raw) \<noteq> []"
    by (rule rstrip_eq_nonempty [of "b64_char n"]) (simp_all add: e b64_char_not_pad)
  moreover have "is_ascii (rstrip_eq (urlsafe_b64encode raw))"
    using b64encode_ascii [of raw] rstrip_eq_subset [of "urlsafe_b64encode raw"]
    by (auto simp: is_ascii_def list_all_iff)
  ultimately show ?thesis by simp
qed

lemma verify_sign:
  assumes "canonical p = Inr c" and "hmac_digest signer (key_bytes signer) c \<noteq> []"
  shows "\<exists>sg. sign signer canonical p = Inr sg \<and> verify signer canonical p (JStr sg) = Inr True"
  using assms signature_ok [OF assms(2)]
  by (simp add: sign_def verify_def compare_digest_def)

lemma delete_update_fresh:
  "map_of d k = None \<Longrightarrow> AList.delete k (AList.update k v d) = d"
  by (induction d) (auto split: if_splits)

lemma map_of_delete_same: "map_of (AList.delete k d) k = None"
  by (simp add: delete_conv')

text \<open>
  C7. For a signer whose digest is never empty (a hash has a fixed positive length):
  \<open>verify(p, sign(p))\<close> is true for every payload that serializes;
  \<open>verify_record(sign_record(r, f), f)\<close> is true for every record whose payload (the
  record without \<open>f\<close>) serializes; and \<open>verify_record(r, f)\<close> returns false, without
  raising, when \<open>f\<close> is not a key of \<open>r\<close>.
\<close>

theorem hmac_round_trip:
  assumes "\<forall>m. hmac_digest signer (key_bytes signer) m \<noteq> []"
  shows "(canonical p = Inr c \<longrightarrow>
            (\<exists>sg. sign signer canonical p = Inr sg
                 \<and> verify signer canonical p (JStr sg) = Inr True))
       \<and> (canon (AList.delete f r) = Inr c' \<longrightarrow>
            (\<exists>r'. sign_record signer canon r f = Inr r'
                 \<and> verify_record signer canon r' f = Inr True))
       \<and> (map_of r f = None \<longrightarrow> verify_record signer canon r f = Inr False)"
proof (intro conjI impI)
  assume "canonical p = Inr c"
  with assms show "\<exists>sg. sign signer canonical p = Inr sg
      \<and> verify signer canonical p (JStr sg) = Inr True"
    by (intro verify_sign) simp_all
next
  assume c: "canon (AList.delete f r) = Inr c'"
  let ?payload = "AList.delete f r"
  from verify_sign [of canon ?payload c' signer, OF c] assms obtain sg where
    sg: "sign signer canon ?payload = Inr sg" "verify signer canon ?payload (JStr sg) = Inr True"
    by blast
  have "sign_record signer canon r f = Inr (AList.update f (JStr sg) ?payload)"
    by (simp add: sign_record_def sg(1))
  moreover have "verify_record signer canon (AList.update f (JStr sg) ?payload) f = Inr True"
    by (simp add: verify_record_def map_of_update delete_update_fresh [OF map_of_delete_same] sg(2))
  ultimately show "\<exists>r'. sign_record signer canon r f = Inr r'
      \<and> verify_record signer canon r' f = Inr True"
    by simp
next
  assume "map_of r f = None"
  then show "verify_record signer canon r f = Inr False"
    by (simp add: verify_record_def)
qed


text \<open>Stand-ins for the two library functions, to run the signer on an example: the
  digest is the key followed by the message, the canonical form lists the keys.\<close>

definition example_signer :: Signer where
  "example_signer = \<lparr>key_bytes = ''secret'', hmac_digest = (\<lambda>k m. k @ m)\<rparr>"

definition example_canonical :: "(string, json) dict \<Rightarrow> error + bytes" where
  "example_canonical d = Inr (concat (map fst d))"

text \<open>
  C7 on the example signer.
\<close>

theorem hmac_round_trip_witness:
  "(\<exists>sg. sign example_signer example_canonical [(''x'', JInt 1)] = Inr sg
        \<and> verify example_signer example_canonical [(''x'', JInt 1)] (JStr sg) = Inr True)
   \<and> (\<exists>r'. sign_record example_signer example_canonical [(''x'', JInt 1)] ''signature'' = Inr r'
        \<and> verify_record example_signer example_canonical r' ''signature'' = Inr True)
   \<and> verify_record example_signer example_canonical [(''x'', JInt 1)] ''signature'' = Inr False"
proof -
  have d: "\<forall>m. hmac_digest example_signer (key_bytes example_signer) m \<noteq> []"
    by (simp add: example_signer_def)
  from hmac_round_trip [OF d, of example_canonical "[(''x'', JInt 1)]" "''x''"
      example_canonical "''signature''" "[(''x'', JInt 1)]" "''x''"]
  show ?thesis by (simp add: example_canonical_def)
qed

section \<open>Shortest paths (\<open>GraphStore.shortest_path\<close>)\<close>

text \<open>The local variables of the search: the queue, the visited set, the parent
  pointers \<open>prev\<close> and the depths.\<close>

record bfs_state =
  queue :: "string list"
  visited :: "string set"
  prev :: "(string, string option \<times> string option) dict"
  depth :: "(string, int) dict"

text \<open>The \<open>for\<close> loop over the outgoing transition ids of \<open>current\<close>: it either
  returns from the function with the target found, or runs to its end.\<close>

datatype scan = Found bfs_state | Scanned bfs_state

fun expand ::
  "(string, TransitionRecord) dict \<Rightarrow> string \<Rightarrow> string \<Rightarrow> int \<Rightarrow> string list
     \<Rightarrow> bfs_state \<Rightarrow> scan" where
  "expand ctx_transitions target current current_depth [] b = Scanned b"
| "expand ctx_transitions target current current_depth (tid # tids) b =
     (case map_of ctx_transitions tid of
        None \<Rightarrow> expand ctx_transitions target current current_depth tids b
      | Some tr \<Rightarrow>
          let nxt = target_state_id tr in
          if nxt \<in> visited b then expand ctx_transitions target current current_depth tids b
          else
            let b1 = b\<lparr>visited := insert nxt (visited b),
                       prev := AList.update nxt (Some current, Some tid) (prev b),
                       depth := AList.update nxt (current_depth + 1) (depth b)\<rparr>
            in if nxt = target then Found b1
               else expand ctx_transitions target current current_depth tids
                      (b1\<lparr>queue := queue b1 @ [nxt]\<rparr>))"

text \<open>\<open>max_depth is not None and current_depth >= max_depth\<close> skips the expansion.\<close>

definition may_expand :: "int option \<Rightarrow> int \<Rightarrow> bool" where
  "may_expand max_depth d = (case max_depth of None \<Rightarrow> True | Some m \<Rightarrow> d < m)"

definition targets :: "(string, TransitionRecord) dict \<Rightarrow> string set" where
  "targets ctx_transitions = (\<lambda>(k, r). target_state_id r) ` set ctx_transitions"

definition bfs_measure :: "(string, TransitionRecord) dict \<Rightarrow> bfs_state \<Rightarrow> nat" where
  "bfs_measure ctx_transitions b =
     card (targets ctx_transitions - visited b) + length (queue b)"

lemma expand_measure:
  "expand trs target current d tids b = Scanned b' \<Longrightarrow> bfs_measure trs b' = bfs_measure trs b"
proof (induction trs target current d tids b rule: expand.induct)
  case (1 trs target current d b)
  then show ?case by simp
next
  case (2 trs target current d tid tids b)
  show ?case
  proof (cases "map_of trs tid")
    case None
    with 2 show ?thesis by simp
  next
    case (Some tr)
    let ?nxt = "target_state_id tr"
    show ?thesis
    proof (cases "?nxt \<in> visited b")
      case True
      with 2 Some show ?thesis by simp
    next
      case False
      let ?b1 = "b\<lparr>visited := insert ?nxt (visited b),
                     prev := AList.update ?nxt (Some current, Some tid) (prev b),
                     depth := AList.update ?nxt (d + 1) (depth b)\<rparr>"
      from "2.prems" Some False have nt: "?nxt \<noteq> target"
        by (auto simp: Let_def split: if_splits)
      with "2.prems" Some False
      have "expand trs target current d tids (?b1\<lparr>queue := queue ?b1 @ [?nxt]\<rparr>) = Scanned b'"
        by (simp add: Let_def)
      from "2.IH"(3) [OF Some refl False refl nt this]
      have "bfs_measure trs b' = bfs_measure trs (?b1\<lparr>queue := queue ?b1 @ [?nxt]\<rparr>)" .
      moreover have "(tid, tr) \<in> set trs" using Some by (rule map_of_SomeD)
      then have "?nxt \<in> targets trs" by (force simp: targets_def)
      then have "card (targets trs - insert ?nxt (visited b)) + 1 = card (targets trs - visited b)"
        using False
        by (metis (no_types, lifting) DiffI Diff_insert List.finite_set One_nat_def add.right_neutral
            add_Suc_right card_Suc_Diff1 finite_Diff finite_imageI targets_def)
      ultimately show ?thesis by (simp add: bfs_measure_def)
    qed
  qed
qed

function bfs_loop ::
  "(string, TransitionRecord) dict \<Rightarrow> (string, string list) dict \<Rightarrow> string \<Rightarrow> int option
     \<Rightarrow> bfs_state \<Rightarrow> error + bfs_state option" where
  "bfs_loop ctx_transitions out target max_depth b =
     (case queue b of
        [] \<Rightarrow> Inr None
      | current # rest \<Rightarrow>
          (case map_of (depth b) current of
             None \<Rightarrow> Inl (KeyError current)
           | Some current_depth \<Rightarrow>
               if \<not> may_expand max_depth current_depth
               then bfs_loop ctx_transitions out target max_depth (b\<lparr>queue := rest\<rparr>)
               else (case expand ctx_transitions target current current_depth
                            (dict_get out current []) (b\<lparr>queue := rest\<rparr>) of
                       Found b1 \<Rightarrow> Inr (Some b1)
                     | Scanned b1 \<Rightarrow> bfs_loop ctx_transitions out target max_depth b1)))"
  by pat_completeness auto
termination
proof (relation "measure (\<lambda>(trs, out, target, max_depth, b). bfs_measure trs b)", goal_cases)
  case 1
  show ?case by simp
next
  case (2 trs out target max_depth b current rest d)
  then show ?case by (simp add: bfs_measure_def)
next
  case (3 trs out target max_depth b current rest d b1)
  from expand_measure [OF 3(4)] 3(1) show ?case by (simp add: bfs_measure_def)
qed


text \<open>
  \<open>_reconstruct_path\<close>: the \<open>while True\<close> loop follows the parent pointers; on a
  \<open>prev\<close> that holds a cycle it does not end, and the value is \<open>None\<close> then.
\<close>

partial_function (option) reconstruct_loop ::
  "(string, TransitionRecord) dict \<Rightarrow> (string, string option \<times> string option) dict \<Rightarrow> string
     \<Rightarrow> TransitionRecord list \<Rightarrow> TransitionRecord list option" where
  "reconstruct_loop ctx_transitions prv current path_transitions =
     (case dict_get prv current (None, None) of
        (Some prev_state, Some tid) \<Rightarrow>
          reconstruct_loop ctx_transitions prv prev_state
            (case map_of ctx_transitions tid of
               Some tr \<Rightarrow> path_transitions @ [tr]
             | None \<Rightarrow> path_transitions)
      | (Some prev_state, None) \<Rightarrow> Some path_transitions
      | (None, x) \<Rightarrow> Some path_transitions)"

definition reconstruct_path ::
  "GraphStore \<Rightarrow> string \<Rightarrow> (string, string option \<times> string option) dict \<Rightarrow> string
     \<Rightarrow> TransitionRecord list option" where
  "reconstruct_path st c prv target =
     map_option rev (reconstruct_loop (dict_get (transitions st) c []) prv target [])"

text \<open>What a call does: it returns a value, raises, or does not end.\<close>

datatype 'a outcome = Returns 'a | Raises error | Diverges

definition shortest_path ::
  "GraphStore \<Rightarrow> string \<Rightarrow> string \<Rightarrow> string \<Rightarrow> int option
     \<Rightarrow> TransitionRecord list option outcome" where
  "shortest_path st c source target max_depth =
     (if source = target then Returns (Some [])
      else
        let ctx_transitions = dict_get (transitions st) c [];
            out = dict_get (outgoing st) c []
        in if ctx_transitions = [] then Returns None
           else
             (case bfs_loop ctx_transitions out target max_depth
                     \<lparr>queue = [source], visited = {source},
                      prev = [(source, (None, None))], depth = [(source, 0)]\<rparr> of
                Inl e \<Rightarrow> Raises e
              | Inr None \<Rightarrow> Returns None
              | Inr (Some b) \<Rightarrow>
                  (case reconstruct_path st c (prev b) target of
                     None \<Rightarrow> Diverges
                   | Some p \<Rightarrow> Returns (Some p))))"

subsection \<open>Walks in a context\<close>

text \<open>A record is stored when some transition id maps to it.\<close>

definition stored :: "(string, TransitionRecord) dict \<Rightarrow> TransitionRecord \<Rightarrow> bool" where
  "stored trs e = list_ex (\<lambda>(k, r). map_of trs k = Some e) trs"

lemma stored_iff: "stored trs e \<longleftrightarrow> (\<exists>tid. map_of trs tid = Some e)"
  by (auto simp: stored_def list_ex_iff dest: map_of_SomeD)

text \<open>\<open>walk trs u es v\<close>: the stored transitions \<open>es\<close> lead from state \<open>u\<close> to state \<open>v\<close>,
  each starting where the one before ends.\<close>

fun walk ::
  "(string, TransitionRecord) dict \<Rightarrow> string \<Rightarrow> TransitionRecord list \<Rightarrow> string \<Rightarrow> bool" where
  "walk trs u [] v = (u = v)"
| "walk trs u (e # es) v =
     (stored trs e \<and> source_state_id e = u \<and> walk trs (target_state_id e) es v)"

lemma walk_append:
  "walk trs u (p @ q) v \<longleftrightarrow> (\<exists>w. walk trs u p w \<and> walk trs w q v)"
  by (induction p arbitrary: u) auto

lemma walk_snoc:
  "walk trs u p w \<Longrightarrow> stored trs e \<Longrightarrow> source_state_id e = w \<Longrightarrow>
   walk trs u (p @ [e]) (target_state_id e)"
  by (auto simp: walk_append)

lemma walk_ends:
  "walk trs u p v \<Longrightarrow> p \<noteq> [] \<Longrightarrow> source_state_id (hd p) = u \<and> target_state_id (last p) = v"
  by (induction p arbitrary: u) (auto split: if_splits)

lemma walk_chained:
  "walk trs u p v \<Longrightarrow> Suc i < length p \<Longrightarrow>
   target_state_id (p ! i) = source_state_id (p ! Suc i)"
proof (induction p arbitrary: u i)
  case Nil
  then show ?case by simp
next
  case (Cons e es)
  show ?case
  proof (cases i)
    case 0
    with Cons.prems show ?thesis by (cases es) auto
  next
    case (Suc j)
    with Cons.prems Cons.IH [of "target_state_id e" j] show ?thesis by auto
  qed
qed

text \<open>A walk that starts inside a set of states and ends outside leaves it by some
  transition; the walk up to that transition is shorter.\<close>

lemma walk_leaves:
  assumes "walk trs u p v" and "u \<in> V" and "v \<notin> V"
  shows "\<exists>p1 e. walk trs u p1 (source_state_id e) \<and> stored trs e \<and> source_state_id e \<in> V
           \<and> target_state_id e \<notin> V \<and> length p1 < length p"
  using assms
proof (induction p arbitrary: u)
  case Nil
  then show ?case by simp
next
  case (Cons e es)
  show ?case
  proof (cases "target_state_id e \<in> V")
    case False
    have "walk trs u [] (source_state_id e)" using Cons.prems(1) by simp
    with Cons.prems False show ?thesis by (intro exI [of _ "[]"] exI [of _ e]) auto
  next
    case True
    from Cons.IH [OF _ True Cons.prems(3)] Cons.prems(1)
    obtain p1 e' where h: "walk trs (target_state_id e) p1 (source_state_id e')" "stored trs e'"
      "source_state_id e' \<in> V" "target_state_id e' \<notin> V" "length p1 < length es"
      by auto
    have "walk trs u (e # p1) (source_state_id e')" using Cons.prems(1) h(1) by simp
    with h show ?thesis by (intro exI [of _ "e # p1"] exI [of _ e']) auto
  qed
qed


subsection \<open>Invariants of the search\<close>

definition dep :: "bfs_state \<Rightarrow> string \<Rightarrow> int" where
  "dep b v = dict_get (depth b) v 0"

text \<open>The outgoing index of one context agrees with its transitions (invariant I3).\<close>

definition out_ok :: "(string, TransitionRecord) dict \<Rightarrow> (string, string list) dict \<Rightarrow> bool" where
  "out_ok trs out \<longleftrightarrow>
     (\<forall>u tid. tid \<in> set (dict_get out u []) \<longleftrightarrow>
        (\<exists>r. map_of trs tid = Some r \<and> source_state_id r = u))"

text \<open>Every visited state has a depth, and every visited state but the source has a
  parent pointer: a stored transition from a visited state one level up.\<close>

definition bfs_wf :: "(string, TransitionRecord) dict \<Rightarrow> string \<Rightarrow> bfs_state \<Rightarrow> bool" where
  "bfs_wf trs s b \<longleftrightarrow>
     s \<in> visited b \<and> map_of (prev b) s = Some (None, None) \<and> dep b s = 0 \<and>
     set (queue b) \<subseteq> visited b \<and>
     (\<forall>v\<in>visited b. map_of (depth b) v \<noteq> None \<and> 0 \<le> dep b v) \<and>
     (\<forall>v\<in>visited b. v \<noteq> s \<longrightarrow>
        (\<exists>u tid tr. map_of (prev b) v = Some (Some u, Some tid) \<and> map_of trs tid = Some tr
           \<and> source_state_id tr = u \<and> target_state_id tr = v \<and> u \<in> visited b
           \<and> dep b v = dep b u + 1))"

text \<open>No walk from the source reaches a visited state in fewer steps than its depth.\<close>

definition minimal :: "(string, TransitionRecord) dict \<Rightarrow> string \<Rightarrow> bfs_state \<Rightarrow> bool" where
  "minimal trs s b \<longleftrightarrow> (\<forall>v\<in>visited b. \<forall>p. walk trs s p v \<longrightarrow> dep b v \<le> int (length p))"

text \<open>All transitions out of \<open>v\<close> lead to visited states.\<close>

definition closed_ok :: "(string, TransitionRecord) dict \<Rightarrow> bfs_state \<Rightarrow> string \<Rightarrow> bool" where
  "closed_ok trs b v \<longleftrightarrow>
     (\<forall>e. stored trs e \<and> source_state_id e = v \<longrightarrow> target_state_id e \<in> visited b)"

definition by_depth :: "bfs_state \<Rightarrow> bool" where
  "by_depth b \<longleftrightarrow> sorted_wrt (\<lambda>x y. dep b x \<le> dep b y) (queue b)"

text \<open>Between two iterations of the \<open>while\<close> loop.\<close>

definition loop_inv ::
  "(string, TransitionRecord) dict \<Rightarrow> string \<Rightarrow> string \<Rightarrow> int option \<Rightarrow> bfs_state \<Rightarrow> bool" where
  "loop_inv trs s t md b \<longleftrightarrow>
     bfs_wf trs s b \<and> minimal trs s b \<and> t \<notin> visited b \<and> by_depth b \<and>
     (\<forall>q\<in>set (queue b). dep b q \<le> dep b (hd (queue b)) + 1) \<and>
     (\<forall>v\<in>visited b. v \<notin> set (queue b) \<longrightarrow>
        (\<forall>q\<in>set (queue b). dep b v \<le> dep b q) \<and> (may_expand md (dep b v) \<longrightarrow> closed_ok trs b v))"

text \<open>Inside the \<open>for\<close> loop that expands \<open>cur\<close>, found at depth \<open>d\<close>.\<close>

definition scan_inv ::
  "(string, TransitionRecord) dict \<Rightarrow> string \<Rightarrow> string \<Rightarrow> string \<Rightarrow> int \<Rightarrow> bfs_state \<Rightarrow> bool" where
  "scan_inv trs s t cur d b \<longleftrightarrow>
     bfs_wf trs s b \<and> minimal trs s b \<and> t \<notin> visited b \<and> by_depth b \<and>
     cur \<in> visited b \<and> dep b cur = d \<and>
     (\<forall>q\<in>set (queue b). d \<le> dep b q \<and> dep b q \<le> d + 1) \<and>
     (\<forall>v\<in>visited b. v \<notin> set (queue b) \<and> v \<noteq> cur \<longrightarrow> dep b v \<le> d \<and> closed_ok trs b v)"

text \<open>When the target has been found.\<close>

definition found_ok ::
  "(string, TransitionRecord) dict \<Rightarrow> string \<Rightarrow> string \<Rightarrow> int option \<Rightarrow> bfs_state \<Rightarrow> bool" where
  "found_ok trs s t md b \<longleftrightarrow>
     bfs_wf trs s b \<and> minimal trs s b \<and> t \<in> visited b \<and> (\<forall>m. md = Some m \<longrightarrow> dep b t \<le> m)"

text \<open>The three assignments that record a newly found state.\<close>

definition discover :: "string \<Rightarrow> string \<Rightarrow> string \<Rightarrow> int \<Rightarrow> bfs_state \<Rightarrow> bfs_state" where
  "discover nxt cur tid d b =
     b\<lparr>visited := insert nxt (visited b),
       prev := AList.update nxt (Some cur, Some tid) (prev b),
       depth := AList.update nxt (d + 1) (depth b)\<rparr>"

lemma discover_simps [simp]:
  "visited (discover nxt cur tid d b) = insert nxt (visited b)"
  "queue (discover nxt cur tid d b) = queue b"
  "dep (discover nxt cur tid d b) v = (if v = nxt then d + 1 else dep b v)"
  "map_of (prev (discover nxt cur tid d b)) v =
     (if v = nxt then Some (Some cur, Some tid) else map_of (prev b) v)"
  "map_of (depth (discover nxt cur tid d b)) v =
     (if v = nxt then Some (d + 1) else map_of (depth b) v)"
  by (simp_all add: discover_def dep_def dict_get_update map_of_update)

lemma enqueue_simps [simp]:
  "visited (b\<lparr>queue := q\<rparr>) = visited b"
  "dep (b\<lparr>queue := q\<rparr>) v = dep b v"
  "closed_ok trs (b\<lparr>queue := q\<rparr>) v = closed_ok trs b v"
  "minimal trs s (b\<lparr>queue := q\<rparr>) = minimal trs s b"
  by (simp_all add: dep_def closed_ok_def minimal_def)

lemma expand_Cons:
  "expand trs t cur d (tid # tids) b =
     (case map_of trs tid of
        None \<Rightarrow> expand trs t cur d tids b
      | Some tr \<Rightarrow>
          if target_state_id tr \<in> visited b then expand trs t cur d tids b
          else if target_state_id tr = t then Found (discover (target_state_id tr) cur tid d b)
          else expand trs t cur d tids
                 ((discover (target_state_id tr) cur tid d b)
                    \<lparr>queue := queue b @ [target_state_id tr]\<rparr>))"
  by (simp add: discover_def Let_def split: option.splits)

declare expand.simps(2) [simp del]

lemma unvisited_far:
  assumes "scan_inv trs s t cur d b" and "w \<notin> visited b" and "walk trs s p w"
  shows "d + 1 \<le> int (length p)"
proof -
  from assms(1) have s: "s \<in> visited b" by (simp add: scan_inv_def bfs_wf_def)
  from walk_leaves [OF assms(3) s assms(2)] obtain p1 e where
    h: "walk trs s p1 (source_state_id e)" "stored trs e" "source_state_id e \<in> visited b"
       "target_state_id e \<notin> visited b" "length p1 < length p"
    by blast
  let ?x = "source_state_id e"
  from assms(1) h(1,3) have le: "dep b ?x \<le> int (length p1)"
    by (auto simp: scan_inv_def minimal_def)
  have "d \<le> dep b ?x"
  proof (cases "?x \<in> set (queue b) \<or> ?x = cur")
    case True
    with assms(1) show ?thesis by (auto simp: scan_inv_def)
  next
    case False
    with assms(1) h(3) have "closed_ok trs b ?x" by (auto simp: scan_inv_def)
    with h(2,4) show ?thesis by (auto simp: closed_ok_def)
  qed
  with le h(5) show ?thesis by linarith
qed


lemma discover_wf:
  assumes "scan_inv trs s t cur d b" and "map_of trs tid = Some tr"
    and "source_state_id tr = cur" and "target_state_id tr \<notin> visited b"
  shows "bfs_wf trs s (discover (target_state_id tr) cur tid d b)"
proof -
  let ?n = "target_state_id tr"
  let ?b = "discover ?n cur tid d b"
  from assms(1) have wf: "bfs_wf trs s b" and cur: "cur \<in> visited b" "dep b cur = d"
    by (simp_all add: scan_inv_def)
  from wf cur have d0: "0 \<le> d" by (auto simp: bfs_wf_def)
  from wf assms(4) have ns: "s \<noteq> ?n" by (auto simp: bfs_wf_def)
  from cur assms(4) have nc: "cur \<noteq> ?n" by auto
  have parent: "\<exists>u tid' tr'. map_of (prev ?b) v = Some (Some u, Some tid') \<and> map_of trs tid' = Some tr'
           \<and> source_state_id tr' = u \<and> target_state_id tr' = v \<and> u \<in> visited ?b
           \<and> dep ?b v = dep ?b u + 1"
    if v: "v \<in> visited ?b" "v \<noteq> s" for v
  proof (cases "v = ?n")
    case True
    show ?thesis
      using assms(2,3) cur nc True
      by (intro exI [of _ cur] exI [of _ tid] exI [of _ tr]) simp
  next
    case False
    with v have "v \<in> visited b" by simp
    with wf v(2) obtain u tid' tr' where
      h: "map_of (prev b) v = Some (Some u, Some tid')" "map_of trs tid' = Some tr'"
         "source_state_id tr' = u" "target_state_id tr' = v" "u \<in> visited b"
         "dep b v = dep b u + 1"
      unfolding bfs_wf_def by blast
    from h(5) assms(4) have "u \<noteq> ?n" by auto
    with h False show ?thesis
      by (intro exI [of _ u] exI [of _ tid'] exI [of _ tr']) simp
  qed
  have "s \<in> visited ?b" "map_of (prev ?b) s = Some (None, None)" "dep ?b s = 0"
    "set (queue ?b) \<subseteq> visited ?b"
    using wf ns by (auto simp: bfs_wf_def)
  moreover have "\<forall>v\<in>visited ?b. map_of (depth ?b) v \<noteq> None \<and> 0 \<le> dep ?b v"
    using wf d0 by (auto simp: bfs_wf_def)
  ultimately show ?thesis
    unfolding bfs_wf_def using parent by blast
qed

lemma discover_minimal:
  assumes "scan_inv trs s t cur d b" and "target_state_id tr \<notin> visited b"
  shows "minimal trs s (discover (target_state_id tr) cur tid d b)"
  unfolding minimal_def
proof (intro ballI allI impI)
  fix v p
  assume v: "v \<in> visited (discover (target_state_id tr) cur tid d b)" and p: "walk trs s p v"
  show "dep (discover (target_state_id tr) cur tid d b) v \<le> int (length p)"
  proof (cases "v = target_state_id tr")
    case True
    with unvisited_far [OF assms(1) assms(2)] p show ?thesis by simp
  next
    case False
    with v have "v \<in> visited b" by simp
    with assms(1) p False show ?thesis by (auto simp: scan_inv_def minimal_def)
  qed
qed

lemma closed_ok_mono:
  "closed_ok trs b v \<Longrightarrow> visited b \<subseteq> visited b' \<Longrightarrow> closed_ok trs b' v"
  by (auto simp: closed_ok_def)

lemma by_depth_snoc:
  assumes "by_depth b" and "\<forall>q\<in>set (queue b). dep b q \<le> d + 1" and "n \<notin> visited b"
    and "set (queue b) \<subseteq> visited b"
  shows "by_depth ((discover n cur tid d b)\<lparr>queue := queue b @ [n]\<rparr>)"
proof -
  have eq: "\<And>x. x \<in> set (queue b) \<Longrightarrow> x \<noteq> n" using assms(3,4) by auto
  have "sorted_wrt (\<lambda>x y. dep (discover n cur tid d b) x \<le> dep (discover n cur tid d b) y) (queue b)"
  proof (rule sorted_wrt_mono_rel [OF _ assms(1) [unfolded by_depth_def]])
    fix x y
    assume "x \<in> set (queue b)" "y \<in> set (queue b)" "dep b x \<le> dep b y"
    then show "dep (discover n cur tid d b) x \<le> dep (discover n cur tid d b) y"
      using eq by simp
  qed
  then show ?thesis
    using assms(2) eq by (auto simp: by_depth_def sorted_wrt_append)
qed

lemma discover_scan_inv:
  assumes "scan_inv trs s t cur d b" and "map_of trs tid = Some tr"
    and "source_state_id tr = cur" and "target_state_id tr \<notin> visited b"
    and "target_state_id tr \<noteq> t"
  shows "scan_inv trs s t cur d
           ((discover (target_state_id tr) cur tid d b)\<lparr>queue := queue b @ [target_state_id tr]\<rparr>)"
proof -
  let ?n = "target_state_id tr"
  let ?b1 = "discover ?n cur tid d b"
  let ?b = "?b1\<lparr>queue := queue b @ [?n]\<rparr>"
  note inv = assms(1) [unfolded scan_inv_def]
  from inv have wf: "bfs_wf trs s b" by simp
  from inv assms(4) have nc: "cur \<noteq> ?n" by auto
  have qs: "set (queue b) \<subseteq> visited b" using wf by (simp add: bfs_wf_def)
  have wf1: "bfs_wf trs s ?b1" by (rule discover_wf [OF assms(1-4)])
  have "bfs_wf trs s ?b"
    using wf1 unfolding bfs_wf_def by (simp add: dep_def)
  moreover have "minimal trs s ?b"
    using discover_minimal [OF assms(1,4)] by simp
  moreover have "t \<notin> visited ?b" using inv assms(5) by simp
  moreover have "by_depth ?b"
    using inv qs assms(4) by (intro by_depth_snoc) auto
  moreover have "cur \<in> visited ?b" "dep ?b cur = d" using inv nc by simp_all
  moreover have "\<forall>q\<in>set (queue ?b). d \<le> dep ?b q \<and> dep ?b q \<le> d + 1"
    using inv by auto
  moreover have "\<forall>v\<in>visited ?b. v \<notin> set (queue ?b) \<and> v \<noteq> cur \<longrightarrow>
      dep ?b v \<le> d \<and> closed_ok trs ?b v"
  proof (intro ballI impI)
    fix v assume v: "v \<in> visited ?b" "v \<notin> set (queue ?b) \<and> v \<noteq> cur"
    then have vn: "v \<noteq> ?n" "v \<in> visited b" "v \<notin> set (queue b)" by auto
    with inv v(2) have "dep b v \<le> d" "closed_ok trs b v" by auto
    then show "dep ?b v \<le> d \<and> closed_ok trs ?b v"
      using vn(1) closed_ok_mono [of trs b v ?b1] by auto
  qed
  ultimately show ?thesis unfolding scan_inv_def by blast
qed

lemma discover_found:
  assumes "scan_inv trs s t cur d b" and "map_of trs tid = Some tr"
    and "source_state_id tr = cur" and "target_state_id tr \<notin> visited b"
    and "target_state_id tr = t" and "may_expand md d"
  shows "found_ok trs s t md (discover (target_state_id tr) cur tid d b)"
  unfolding found_ok_def
  using discover_wf [OF assms(1-4)] discover_minimal [OF assms(1,4)] assms(5,6)
  by (auto simp: may_expand_def)


text \<open>The \<open>for\<close> loop keeps its invariant; when it runs to its end, every transition
  it was given leads to a visited state.\<close>

lemma expand_inv:
  assumes "\<forall>tid\<in>set tids. \<forall>tr. map_of trs tid = Some tr \<longrightarrow> source_state_id tr = cur"
    and "scan_inv trs s t cur d b" and "may_expand md d"
  shows "case expand trs t cur d tids b of
           Scanned b' \<Rightarrow> scan_inv trs s t cur d b' \<and> visited b \<subseteq> visited b'
             \<and> (\<forall>tid\<in>set tids. \<forall>tr. map_of trs tid = Some tr \<longrightarrow> target_state_id tr \<in> visited b')
         | Found b' \<Rightarrow> found_ok trs s t md b'"
  using assms(1,2)
proof (induction tids arbitrary: b)
  case Nil
  then show ?case by simp
next
  case (Cons tid tids)
  from Cons.prems(1) have rest: "\<forall>tid\<in>set tids. \<forall>tr. map_of trs tid = Some tr \<longrightarrow> source_state_id tr = cur"
    by simp
  show ?case
  proof (cases "map_of trs tid")
    case None
    with Cons.IH [OF rest Cons.prems(2)] show ?thesis
      by (auto simp: expand_Cons split: scan.splits)
  next
    case (Some tr)
    with Cons.prems(1) have src: "source_state_id tr = cur" by simp
    show ?thesis
    proof (cases "target_state_id tr \<in> visited b")
      case True
      with Some Cons.IH [OF rest Cons.prems(2)] show ?thesis
        by (auto simp: expand_Cons split: scan.splits)
    next
      case False
      show ?thesis
      proof (cases "target_state_id tr = t")
        case True
        from discover_found [OF Cons.prems(2) Some src False True assms(3)] Some False True
        show ?thesis by (simp add: expand_Cons)
      next
        case nt: False
        let ?b = "(discover (target_state_id tr) cur tid d b)\<lparr>queue := queue b @ [target_state_id tr]\<rparr>"
        have inv: "scan_inv trs s t cur d ?b"
          by (rule discover_scan_inv [OF Cons.prems(2) Some src False nt])
        have e: "expand trs t cur d (tid # tids) b = expand trs t cur d tids ?b"
          using Some False nt by (simp add: expand_Cons)
        from Cons.IH [OF rest inv] show ?thesis
          unfolding e using Some by (auto split: scan.splits)
      qed
    qed
  qed
qed

lemma hd_in_sorted:
  "sorted_wrt (\<lambda>x y. f x \<le> (f y :: int)) (c # rest) \<Longrightarrow> q \<in> set rest \<Longrightarrow> f c \<le> f q"
  by simp

text \<open>Taking \<open>cur\<close> from the queue without expanding it.\<close>

lemma loop_skip:
  assumes "loop_inv trs s t md b" and "queue b = cur # rest" and "\<not> may_expand md (dep b cur)"
  shows "loop_inv trs s t md (b\<lparr>queue := rest\<rparr>)"
proof -
  note inv = assms(1) [unfolded loop_inv_def by_depth_def assms(2)]
  let ?b = "b\<lparr>queue := rest\<rparr>"
  from inv have ge: "\<And>q. q \<in> set rest \<Longrightarrow> dep b cur \<le> dep b q" by simp
  have "bfs_wf trs s ?b" using inv assms(2) by (auto simp: bfs_wf_def dep_def)
  moreover have "minimal trs s ?b" "t \<notin> visited ?b" using inv by simp_all
  moreover have "by_depth ?b" using inv by (simp add: by_depth_def)
  moreover have "\<forall>q\<in>set (queue ?b). dep ?b q \<le> dep ?b (hd (queue ?b)) + 1"
  proof
    fix q assume q: "q \<in> set (queue ?b)"
    then have "rest \<noteq> []" by auto
    then have "hd rest \<in> set rest" by simp
    from ge [OF this] inv q show "dep ?b q \<le> dep ?b (hd (queue ?b)) + 1" by auto
  qed
  moreover have "\<forall>v\<in>visited ?b. v \<notin> set (queue ?b) \<longrightarrow>
        (\<forall>q\<in>set (queue ?b). dep ?b v \<le> dep ?b q) \<and> (may_expand md (dep ?b v) \<longrightarrow> closed_ok trs ?b v)"
  proof (intro ballI impI)
    fix v assume v: "v \<in> visited ?b" "v \<notin> set (queue ?b)"
    show "(\<forall>q\<in>set (queue ?b). dep ?b v \<le> dep ?b q) \<and> (may_expand md (dep ?b v) \<longrightarrow> closed_ok trs ?b v)"
    proof (cases "v = cur")
      case True
      with ge assms(3) show ?thesis by simp
    next
      case False
      with v assms(2) have "v \<in> visited b" "v \<notin> set (queue b)" by auto
      with inv assms(2) show ?thesis by auto
    qed
  qed
  ultimately show ?thesis unfolding loop_inv_def by blast
qed

text \<open>Taking \<open>cur\<close> from the queue to expand it.\<close>

lemma loop_to_scan:
  assumes "loop_inv trs s t md b" and "queue b = cur # rest" and "may_expand md (dep b cur)"
  shows "scan_inv trs s t cur (dep b cur) (b\<lparr>queue := rest\<rparr>)"
proof -
  note inv = assms(1) [unfolded loop_inv_def by_depth_def assms(2)]
  let ?b = "b\<lparr>queue := rest\<rparr>"
  from inv have ge: "\<And>q. q \<in> set rest \<Longrightarrow> dep b cur \<le> dep b q" by simp
  from inv have le: "\<And>q. q \<in> set rest \<Longrightarrow> dep b q \<le> dep b cur + 1" by simp
  have cur: "cur \<in> visited b" using inv assms(2) by (auto simp: bfs_wf_def)
  have "bfs_wf trs s ?b" using inv assms(2) by (auto simp: bfs_wf_def dep_def)
  moreover have "minimal trs s ?b" "t \<notin> visited ?b" using inv by simp_all
  moreover have "by_depth ?b" using inv by (simp add: by_depth_def)
  moreover have "cur \<in> visited ?b" "dep ?b cur = dep b cur" using cur by simp_all
  moreover have "\<forall>q\<in>set (queue ?b). dep b cur \<le> dep ?b q \<and> dep ?b q \<le> dep b cur + 1"
    using ge le by simp
  moreover have "\<forall>v\<in>visited ?b. v \<notin> set (queue ?b) \<and> v \<noteq> cur \<longrightarrow>
      dep ?b v \<le> dep b cur \<and> closed_ok trs ?b v"
  proof (intro ballI impI)
    fix v assume v: "v \<in> visited ?b" "v \<notin> set (queue ?b) \<and> v \<noteq> cur"
    then have v': "v \<in> visited b" "v \<notin> set (queue b)" using assms(2) by auto
    with inv assms(2) have d: "dep b v \<le> dep b cur" by auto
    with assms(3) have "may_expand md (dep b v)" by (auto simp: may_expand_def split: option.splits)
    with inv v' assms(2) have "closed_ok trs b v" by auto
    with d show "dep ?b v \<le> dep b cur \<and> closed_ok trs ?b v" by simp
  qed
  ultimately show ?thesis unfolding scan_inv_def by blast
qed

text \<open>After the \<open>for\<close> loop has run to its end.\<close>

lemma scan_to_loop:
  assumes "scan_inv trs s t cur d b"
    and "\<forall>e. stored trs e \<and> source_state_id e = cur \<longrightarrow> target_state_id e \<in> visited b"
  shows "loop_inv trs s t md b"
proof -
  note inv = assms(1) [unfolded scan_inv_def]
  have "\<forall>q\<in>set (queue b). dep b q \<le> dep b (hd (queue b)) + 1"
  proof
    fix q assume q: "q \<in> set (queue b)"
    then have h: "hd (queue b) \<in> set (queue b)" by (cases "queue b") auto
    from inv q have "dep b q \<le> d + 1" by blast
    moreover from inv h have "d \<le> dep b (hd (queue b))" by blast
    ultimately show "dep b q \<le> dep b (hd (queue b)) + 1" by linarith
  qed
  moreover have "\<forall>v\<in>visited b. v \<notin> set (queue b) \<longrightarrow>
        (\<forall>q\<in>set (queue b). dep b v \<le> dep b q) \<and> (may_expand md (dep b v) \<longrightarrow> closed_ok trs b v)"
  proof (intro ballI impI)
    fix v assume v: "v \<in> visited b" "v \<notin> set (queue b)"
    show "(\<forall>q\<in>set (queue b). dep b v \<le> dep b q) \<and> (may_expand md (dep b v) \<longrightarrow> closed_ok trs b v)"
    proof (cases "v = cur")
      case True
      with inv assms(2) show ?thesis by (auto simp: closed_ok_def)
    next
      case False
      with inv v have "dep b v \<le> d" "closed_ok trs b v" by auto
      moreover from inv have "\<And>q. q \<in> set (queue b) \<Longrightarrow> d \<le> dep b q" by blast
      ultimately show ?thesis by fastforce
    qed
  qed
  ultimately show ?thesis using inv unfolding loop_inv_def by blast
qed


text \<open>The \<open>while\<close> loop raises nothing; it ends with the queue empty or with the target
  found.\<close>

lemma bfs_loop_inv:
  assumes "out_ok trs out" and "loop_inv trs s t md b"
  shows "case bfs_loop trs out t md b of
           Inl e \<Rightarrow> False
         | Inr None \<Rightarrow> True
         | Inr (Some b') \<Rightarrow> found_ok trs s t md b'"
  using assms
proof (induction trs out t md b rule: bfs_loop.induct)
  case (1 trs out t md b)
  show ?case
  proof (cases "queue b")
    case Nil
    then show ?thesis by (subst bfs_loop.simps) simp
  next
    case (Cons cur rest)
    from "1.prems"(2) Cons have "cur \<in> visited b" by (auto simp: loop_inv_def bfs_wf_def)
    with "1.prems"(2) obtain d where d: "map_of (depth b) cur = Some d"
      by (auto simp: loop_inv_def bfs_wf_def)
    then have dd: "dep b cur = d" by (simp add: dep_def dict_get_def)
    show ?thesis
    proof (cases "may_expand md d")
      case False
      have "loop_inv trs s t md (b\<lparr>queue := rest\<rparr>)"
        using "1.prems"(2) Cons False dd by (intro loop_skip [of _ _ _ _ _ cur]) simp_all
      from "1.IH"(1) [OF Cons d False "1.prems"(1) this] show ?thesis
        using Cons d False by (subst bfs_loop.simps) simp
    next
      case True
      let ?r = "expand trs t cur d (dict_get out cur []) (b\<lparr>queue := rest\<rparr>)"
      have src: "\<forall>tid\<in>set (dict_get out cur []). \<forall>tr. map_of trs tid = Some tr
          \<longrightarrow> source_state_id tr = cur"
        using "1.prems"(1) by (auto simp: out_ok_def)
      have scan: "scan_inv trs s t cur d (b\<lparr>queue := rest\<rparr>)"
        using loop_to_scan [OF "1.prems"(2) Cons] True dd by simp
      note ex = expand_inv [OF src scan True]
      show ?thesis
      proof (cases ?r)
        case (Found b1)
        with ex show ?thesis
          using Cons d True by (subst bfs_loop.simps) simp
      next
        case (Scanned b1)
        with ex have inv1: "scan_inv trs s t cur d b1"
          and all: "\<forall>tid\<in>set (dict_get out cur []). \<forall>tr. map_of trs tid = Some tr
              \<longrightarrow> target_state_id tr \<in> visited b1"
          by simp_all
        have "\<forall>e. stored trs e \<and> source_state_id e = cur \<longrightarrow> target_state_id e \<in> visited b1"
        proof (intro allI impI)
          fix e assume e: "stored trs e \<and> source_state_id e = cur"
          then obtain tid where tid: "map_of trs tid = Some e" by (auto simp: stored_iff)
          with e "1.prems"(1) have "tid \<in> set (dict_get out cur [])" by (auto simp: out_ok_def)
          with all tid show "target_state_id e \<in> visited b1" by blast
        qed
        from scan_to_loop [OF inv1 this] have "loop_inv trs s t md b1" .
        from "1.IH"(2) [OF Cons d _ Scanned "1.prems"(1) this] True show ?thesis
          using Cons d Scanned by (subst bfs_loop.simps) simp
      qed
    qed
  qed
qed

text \<open>Following the parent pointers from a visited state ends at the source, and gives
  a walk from the source whose length is the depth of the state.\<close>

lemma reconstruct_walk:
  assumes "bfs_wf trs s b" and "v \<in> visited b" and "dep b v = int n"
  shows "\<exists>p. reconstruct_loop trs (prev b) v acc = Some (acc @ rev p) \<and> walk trs s p v
           \<and> length p = n"
  using assms(2,3)
proof (induction n arbitrary: v acc)
  case 0
  have "v = s"
  proof (rule ccontr)
    assume "v \<noteq> s"
    with assms(1) "0.prems"(1) obtain u where "u \<in> visited b" "dep b v = dep b u + 1"
      unfolding bfs_wf_def by blast
    moreover with assms(1) have "0 \<le> dep b u" by (auto simp: bfs_wf_def)
    ultimately show False using "0.prems"(2) by simp
  qed
  moreover have "dict_get (prev b) s (None, None) = (None, None)"
    using assms(1) by (simp add: bfs_wf_def dict_get_def)
  ultimately have "reconstruct_loop trs (prev b) v acc = Some acc"
    by (subst reconstruct_loop.simps) simp
  with \<open>v = s\<close> show ?case by (intro exI [of _ "[]"]) simp
next
  case (Suc n)
  have "v \<noteq> s" using assms(1) Suc.prems(2) by (auto simp: bfs_wf_def)
  with assms(1) Suc.prems(1) obtain u tid tr where
    h: "map_of (prev b) v = Some (Some u, Some tid)" "map_of trs tid = Some tr"
       "source_state_id tr = u" "target_state_id tr = v" "u \<in> visited b"
       "dep b v = dep b u + 1"
    unfolding bfs_wf_def by blast
  from h(6) Suc.prems(2) have "dep b u = int n" by simp
  from Suc.IH [OF h(5) this, of "acc @ [tr]"] obtain p where
    p: "reconstruct_loop trs (prev b) u (acc @ [tr]) = Some ((acc @ [tr]) @ rev p)"
       "walk trs s p u" "length p = n"
    by blast
  have "reconstruct_loop trs (prev b) v acc = reconstruct_loop trs (prev b) u (acc @ [tr])"
    using h(1,2) by (subst reconstruct_loop.simps) (simp add: dict_get_def)
  with p(1) have "reconstruct_loop trs (prev b) v acc = Some (acc @ rev (p @ [tr]))" by simp
  moreover have "walk trs s (p @ [tr]) v"
    using walk_snoc [OF p(2), of tr] h(2,3,4) by (auto simp: stored_iff)
  ultimately show ?case using p(3) by (intro exI [of _ "p @ [tr]"]) simp
qed

lemma initial_inv:
  assumes "s \<noteq> t"
  shows "loop_inv trs s t md
           \<lparr>queue = [s], visited = {s}, prev = [(s, (None, None))], depth = [(s, 0)]\<rparr>"
  using assms
  by (simp add: loop_inv_def bfs_wf_def minimal_def by_depth_def dep_def dict_get_def)

lemma incidence_out_ok:
  "incidence_consistent st \<Longrightarrow>
   out_ok (dict_get (transitions st) c []) (dict_get (outgoing st) c [])"
  unfolding incidence_consistent_def out_ok_def outgoing_ids_def get_transition_def by blast

text \<open>A depth bound admits a walk of \<open>n\<close> transitions.\<close>

definition within_depth :: "int option \<Rightarrow> nat \<Rightarrow> bool" where
  "within_depth max_depth n = (case max_depth of None \<Rightarrow> True | Some m \<Rightarrow> int n \<le> m)"

lemma shortest_path_result:
  assumes "incidence_consistent st" and "s \<noteq> t" and "dict_get (transitions st) c [] \<noteq> []"
  shows "shortest_path st c s t md = Returns None
       \<or> (\<exists>p. shortest_path st c s t md = Returns (Some p) \<and> p \<noteq> []
             \<and> walk (dict_get (transitions st) c []) s p t \<and> within_depth md (length p)
             \<and> (\<forall>q. walk (dict_get (transitions st) c []) s q t \<longrightarrow> length p \<le> length q))"
proof -
  let ?trs = "dict_get (transitions st) c []"
  let ?out = "dict_get (outgoing st) c []"
  let ?b0 = "\<lparr>queue = [s], visited = {s}, prev = [(s, (None, None))], depth = [(s, 0)]\<rparr>"
  note r = bfs_loop_inv [OF incidence_out_ok [OF assms(1)] initial_inv [OF assms(2)], of c md]
  show ?thesis
  proof (cases "bfs_loop ?trs ?out t md ?b0")
    case (Inl e)
    with r show ?thesis by simp
  next
    case (Inr ob)
    show ?thesis
    proof (cases ob)
      case None
      with Inr assms(2,3) show ?thesis by (simp add: shortest_path_def)
    next
      case (Some b)
      with Inr r have f: "found_ok ?trs s t md b" by simp
      then have wf: "bfs_wf ?trs s b" and tv: "t \<in> visited b" by (simp_all add: found_ok_def)
      from wf tv have "0 \<le> dep b t" by (auto simp: bfs_wf_def)
      then obtain n where n: "dep b t = int n" using nonneg_int_cases by blast
      from reconstruct_walk [OF wf tv n, of "[]"] obtain p where
        p: "reconstruct_loop ?trs (prev b) t [] = Some (rev p)" "walk ?trs s p t" "length p = n"
        by auto
      have res: "shortest_path st c s t md = Returns (Some p)"
        using Inr Some assms(2,3) p(1) by (simp add: shortest_path_def reconstruct_path_def)
      have "p \<noteq> []" using p(2) assms(2) by auto
      moreover have "within_depth md (length p)"
        using f n p(3) by (auto simp: found_ok_def within_depth_def split: option.splits)
      moreover have "\<forall>q. walk ?trs s q t \<longrightarrow> length p \<le> length q"
        using f tv n p(3) by (fastforce simp: found_ok_def minimal_def)
      ultimately show ?thesis using res p(2) by blast
    qed
  qed
qed


text \<open>
  C2. In a store whose incidence index is consistent (every store built by upserts is,
  by C1), a sequence \<open>p\<close> returned by \<open>shortest_path(c, s, t, max_depth)\<close> is a walk of
  transitions stored in \<open>c\<close> from \<open>s\<close> to \<open>t\<close>; no walk from \<open>s\<close> to \<open>t\<close> in \<open>c\<close> has fewer
  transitions; each transition of \<open>p\<close> ends where the next one starts; the first starts
  at \<open>s\<close> and the last ends at \<open>t\<close>.
\<close>

theorem shortest_path_correct:
  assumes "incidence_consistent st" and "shortest_path st c s t md = Returns (Some p)"
  shows "walk (dict_get (transitions st) c []) s p t
       \<and> (\<forall>q. walk (dict_get (transitions st) c []) s q t \<longrightarrow> length p \<le> length q)
       \<and> (\<forall>i. Suc i < length p \<longrightarrow>
             target_state_id (p ! i) = source_state_id (p ! Suc i))
       \<and> (p \<noteq> [] \<longrightarrow> source_state_id (hd p) = s \<and> target_state_id (last p) = t)"
proof -
  let ?trs = "dict_get (transitions st) c []"
  have w: "walk ?trs s p t \<and> (\<forall>q. walk ?trs s q t \<longrightarrow> length p \<le> length q)"
  proof (cases "s = t")
    case True
    with assms(2) show ?thesis by (simp add: shortest_path_def)
  next
    case False
    with assms(2) have "?trs \<noteq> []" by (auto simp: shortest_path_def Let_def)
    from shortest_path_result [OF assms(1) False this, of md] assms(2) show ?thesis by auto
  qed
  with walk_chained [of ?trs s p t] walk_ends [of ?trs s p t] show ?thesis by blast
qed

text \<open>
  C6. \<open>shortest_path(c, s, s)\<close> returns the empty sequence. For \<open>s \<noteq> t\<close> it returns
  \<open>None\<close> when the context holds no transitions, and, in a store whose incidence index
  is consistent, when no walk from \<open>s\<close> to \<open>t\<close> fits the depth bound. In such a store the
  call always returns (it neither raises nor runs forever), and it returns the empty
  sequence only when \<open>s = t\<close>.
\<close>

theorem shortest_path_degenerate:
  "shortest_path st c s s md = Returns (Some [])
   \<and> (s \<noteq> t \<and> dict_get (transitions st) c [] = [] \<longrightarrow> shortest_path st c s t md = Returns None)
   \<and> (incidence_consistent st \<longrightarrow> (\<exists>r. shortest_path st c s t md = Returns r))
   \<and> (incidence_consistent st \<and> s \<noteq> t
        \<and> (\<forall>p. walk (dict_get (transitions st) c []) s p t \<longrightarrow> \<not> within_depth md (length p))
      \<longrightarrow> shortest_path st c s t md = Returns None)
   \<and> (incidence_consistent st \<and> shortest_path st c s t md = Returns (Some []) \<longrightarrow> s = t)"
proof -
  let ?trs = "dict_get (transitions st) c []"
  have a: "shortest_path st c s s md = Returns (Some [])" by (simp add: shortest_path_def)
  have b: "shortest_path st c s t md = Returns None" if "s \<noteq> t" "?trs = []"
    using that by (simp add: shortest_path_def)
  have r: "shortest_path st c s t md = Returns None
       \<or> (\<exists>p. shortest_path st c s t md = Returns (Some p) \<and> p \<noteq> []
             \<and> walk ?trs s p t \<and> within_depth md (length p))"
    if "incidence_consistent st" "s \<noteq> t"
  proof (cases "?trs = []")
    case True
    with b that show ?thesis by simp
  next
    case False
    from shortest_path_result [OF that False, of md] show ?thesis by blast
  qed
  have c: "\<exists>r. shortest_path st c s t md = Returns r" if "incidence_consistent st"
    using a r [OF that] by (cases "s = t") auto
  have d: "shortest_path st c s t md = Returns None"
    if "incidence_consistent st" "s \<noteq> t" "\<forall>p. walk ?trs s p t \<longrightarrow> \<not> within_depth md (length p)"
    using r [OF that(1,2)] that(3) by auto
  have e: "s = t" if "incidence_consistent st" "shortest_path st c s t md = Returns (Some [])"
  proof (rule ccontr)
    assume "s \<noteq> t"
    from r [OF that(1) this] that(2) show False by auto
  qed
  from a b c d e show ?thesis by blast
qed

text \<open>Scenario D, after \<open>t4\<close> has been upserted again with source \<open>B\<close>.\<close>

definition scenario_d_store :: GraphStore where
  "scenario_d_store =
     run_ops (new_store example_config)
       (scenario_ops @ [UpsertTransition (example_transition ''t4'' ''B'' ''D'') True])"

lemma scenario_d_consistent: "incidence_consistent scenario_d_store"
  unfolding scenario_d_store_def by (rule incidence_run_ops [OF incidence_new_store])

lemma scenario_d_transitions:
  "dict_get (transitions scenario_d_store) ''ctx1'' [] =
     [(''t1'', example_transition ''t1'' ''A'' ''B''),
      (''t2'', example_transition ''t2'' ''B'' ''C''),
      (''t3'', example_transition ''t3'' ''C'' ''D''),
      (''t4'', (example_transition ''t4'' ''B'' ''D'')\<lparr>times_observed := 2\<rparr>)]"
  by (simp add: scenario_d_store_def example_defs)

lemma scenario_d_outgoing:
  "dict_get (outgoing scenario_d_store) ''ctx1'' [] =
     [(''A'', [''t1'']), (''B'', [''t2'', ''t4'']), (''C'', [''t3''])]"
  by (simp add: scenario_d_store_def example_defs)

lemma scenario_d_path:
  "shortest_path scenario_d_store ''ctx1'' ''A'' ''D'' None =
     Returns (Some [example_transition ''t1'' ''A'' ''B'',
                    (example_transition ''t4'' ''B'' ''D'')\<lparr>times_observed := 2\<rparr>])"
  unfolding shortest_path_def reconstruct_path_def scenario_d_transitions scenario_d_outgoing
  by (simp add: bfs_loop.simps expand_Cons reconstruct_loop.simps may_expand_def Let_def
      dict_get_def example_transition_def target_state_id_def)


lemma scenario_d_no_edge_from_D:
  "stored (dict_get (transitions scenario_d_store) ''ctx1'' []) e \<Longrightarrow> source_state_id e \<noteq> ''D''"
  unfolding scenario_d_transitions stored_iff
  by (auto simp: example_transition_def source_state_id_def split: if_splits)

lemma scenario_d_unreachable:
  "\<not> walk (dict_get (transitions scenario_d_store) ''ctx1'' []) ''D'' p ''A''"
  using scenario_d_no_edge_from_D by (cases p) auto

text \<open>
  C2 on Scenario D after the redirection of \<open>t4\<close>: the path from \<open>A\<close> to \<open>D\<close> has two
  transitions, and the walk over \<open>t1\<close>, \<open>t2\<close>, \<open>t3\<close> is not shorter.
\<close>

theorem shortest_path_correct_witness:
  "shortest_path scenario_d_store ''ctx1'' ''A'' ''D'' None =
     Returns (Some [example_transition ''t1'' ''A'' ''B'',
                    (example_transition ''t4'' ''B'' ''D'')\<lparr>times_observed := 2\<rparr>])
   \<and> walk (dict_get (transitions scenario_d_store) ''ctx1'' []) ''A''
        [example_transition ''t1'' ''A'' ''B'',
         (example_transition ''t4'' ''B'' ''D'')\<lparr>times_observed := 2\<rparr>] ''D''
   \<and> (2::nat) \<le> length [example_transition ''t1'' ''A'' ''B'', example_transition ''t2'' ''B'' ''C'',
                        example_transition ''t3'' ''C'' ''D'']"
proof -
  let ?p = "[example_transition ''t1'' ''A'' ''B'',
             (example_transition ''t4'' ''B'' ''D'')\<lparr>times_observed := 2\<rparr>]"
  let ?q = "[example_transition ''t1'' ''A'' ''B'', example_transition ''t2'' ''B'' ''C'',
             example_transition ''t3'' ''C'' ''D'']"
  have q: "walk (dict_get (transitions scenario_d_store) ''ctx1'' []) ''A'' ?q ''D''"
    unfolding scenario_d_transitions
    by (simp add: stored_def example_transition_def source_state_id_def target_state_id_def)
  from shortest_path_correct [OF scenario_d_consistent scenario_d_path]
  have "walk (dict_get (transitions scenario_d_store) ''ctx1'' []) ''A'' ?p ''D''"
    and "\<forall>q. walk (dict_get (transitions scenario_d_store) ''ctx1'' []) ''A'' q ''D''
           \<longrightarrow> length ?p \<le> length q"
    by blast+
  with q have "length ?p \<le> length ?q" by blast
  with \<open>walk _ _ ?p _\<close> scenario_d_path show ?thesis by simp
qed

text \<open>
  C6 on the same store: \<open>D\<close> to \<open>D\<close>, \<open>D\<close> to \<open>A\<close> (no transition leaves \<open>D\<close>), and a
  context without transitions.
\<close>

theorem shortest_path_degenerate_witness:
  "shortest_path scenario_d_store ''ctx1'' ''D'' ''D'' None = Returns (Some [])
   \<and> shortest_path scenario_d_store ''ctx1'' ''D'' ''A'' None = Returns None
   \<and> shortest_path scenario_d_store ''ctx2'' ''D'' ''A'' None = Returns None"
proof -
  have empty: "dict_get (transitions scenario_d_store) ''ctx2'' [] = []"
    by (simp add: scenario_d_store_def example_defs)
  from shortest_path_degenerate [of scenario_d_store "''ctx1''" "''D''" None "''A''"]
    scenario_d_consistent scenario_d_unreachable
  have "shortest_path scenario_d_store ''ctx1'' ''D'' ''D'' None = Returns (Some [])"
    and "shortest_path scenario_d_store ''ctx1'' ''D'' ''A'' None = Returns None"
    by simp_all
  moreover from shortest_path_degenerate [of scenario_d_store "''ctx2''" "''D''" None "''A''"] empty
  have "shortest_path scenario_d_store ''ctx2'' ''D'' ''A'' None = Returns None"
    by simp
  ultimately show ?thesis by simp
qed

end
